theory Spec2Isabelle
  imports Complex_Main "HOL-Library.Word" "HOL-Library.Monad_Syntax"
begin

unbundle bit_operations_syntax

section \<open>Embedding of the digest2 sources\<close>

text \<open>
  The Go sources are embedded function by function. Values of type \<open>float64\<close> are real
  numbers. The geometry of the search is computed in exact real arithmetic: there rounding,
  infinities and NaN are outside the model, and a division by zero has the value that HOL
  gives it. The operations of \<open>Float64\<close> of the random source, the additions to the running
  sums of populations in \<open>searchAngles\<close> and the two quotients at the end of \<open>score\<close> round as
  \<open>float64\<close> does. Values of type \<open>int\<close> that serve as indices
  or counters are natural numbers. A run-time panic (an index out of range) and an exhausted
  recursion budget are both the value \<open>None\<close>.
\<close>

subsection \<open>Rounding to float64\<close>

text \<open>\<open>roundEven\<close> is the integer nearest to a real number, the even one of the two when they
  are equally near. \<open>fl64 x\<close> is the \<open>float64\<close> nearest to \<open>x\<close>: with \<open>2^e \<le> |x| < 2^(e+1)\<close>, the
  multiple of \<open>2^(e-52)\<close> nearest to \<open>x\<close>, ties to the even multiple. The exponent range is
  not bounded: the model agrees with IEEE 754 binary64 wherever the result is neither
  subnormal nor beyond the largest finite number. \<open>u64\<close> is the unit roundoff \<open>2^-53\<close>.\<close>

definition roundEven :: "real \<Rightarrow> int" where
  "roundEven x =
     (let f = \<lfloor>x\<rfloor>; d = x - of_int f
      in if d < 1 / 2 then f else if d > 1 / 2 then f + 1 else if even f then f else f + 1)"

definition expo :: "real \<Rightarrow> int" where
  "expo x = \<lfloor>log 2 \<bar>x\<bar>\<rfloor>"

definition fl64 :: "real \<Rightarrow> real" where
  "fl64 x =
     (if x = 0 then 0
      else of_int (roundEven (x * 2 powi (52 - expo x))) * 2 powi (expo x - 52))"

definition u64 :: real where
  "u64 = 1 / 2 ^ 53"

text \<open>The sum, the product and the quotient of two \<open>float64\<close> values.\<close>

definition f64add :: "real \<Rightarrow> real \<Rightarrow> real" where
  "f64add a b = fl64 (a + b)"

definition f64sub :: "real \<Rightarrow> real \<Rightarrow> real" where
  "f64sub a b = fl64 (a - b)"

definition f64mul :: "real \<Rightarrow> real \<Rightarrow> real" where
  "f64mul a b = fl64 (a * b)"

definition f64div :: "real \<Rightarrow> real \<Rightarrow> real" where
  "f64div a b = fl64 (a / b)"

subsection \<open>The repeatable random source (mcc.go)\<close>

type_synonym lcgRand = "64 word"

text \<open>\<open>init\<close> sets \<open>lcga = lcgRand(math.Pow(13, 13))\<close>, \<open>lcgm = 1 << 59\<close>,
  \<open>invLcgm = 1 / float64(lcgm)\<close> and then decrements \<open>lcgm\<close>.\<close>

definition lcga :: lcgRand where
  "lcga = word_of_nat (13 ^ 13)"

definition lcgm :: lcgRand where
  "lcgm = push_bit 59 1 - 1"

definition invLcgm :: real where
  "invLcgm = f64div 1 (fl64 (real (unat (push_bit 59 (1 :: lcgRand)))))"

text \<open>\<open>Float64\<close> updates the receiver and returns \<open>float64(*r) * invLcgm\<close>: the conversion of the
  new state to \<open>float64\<close> and the product both round. The pair is the returned number and the
  new state.\<close>

definition Float64 :: "lcgRand \<Rightarrow> real \<times> lcgRand" where
  "Float64 r =
     (let r' = (r * lcga) AND lcgm in (f64mul (fl64 (real (unat r'))) invLcgm, r'))"

text \<open>The head of the worker loop in \<open>solve\<close>: \<open>if repeatable { *rnd.(*lcgRand) = 3 }\<close>.\<close>

definition reseed :: "bool \<Rightarrow> lcgRand \<Rightarrow> lcgRand" where
  "reseed repeatable rnd = (if repeatable then 3 else rnd)"

text \<open>The numbers that the repeatable source hands to the solver for one tracklet:
  \<open>lcgDraw n\<close> is what the call number \<open>n\<close> of \<open>Float64\<close> returns after the state was set
  to 3.\<close>

definition lcgStep :: "lcgRand \<Rightarrow> lcgRand" where
  "lcgStep r = snd (Float64 r)"

definition lcgDraw :: "nat \<Rightarrow> real" where
  "lcgDraw n = fst (Float64 ((lcgStep ^^ n) 3))"

subsection \<open>The bin model (package d2bin)\<close>

text \<open>The package variables \<open>QPart\<close>, \<open>EPart\<close>, \<open>IPart\<close>, \<open>HPart\<close>, \<open>MSize\<close> and \<open>LastH\<close>
  are collected in one record, which the functions that read them take as an argument.\<close>

record binModel =
  QPart :: "real list"
  EPart :: "real list"
  IPart :: "real list"
  HPart :: "real list"
  MSize :: int
  LastH :: int

definition Mx :: "binModel \<Rightarrow> nat \<Rightarrow> nat \<Rightarrow> nat \<Rightarrow> nat \<Rightarrow> nat" where
  "Mx m iq ie ii ih =
     ((iq * length (EPart m) + ie) * length (IPart m) + ii) * length (HPart m) + ih"

text \<open>The sources have no inverse of \<open>Mx\<close>; \<open>unflatten\<close> is the one the specification
  speaks of, by division with remainder.\<close>

definition unflatten :: "binModel \<Rightarrow> nat \<Rightarrow> nat \<times> nat \<times> nat \<times> nat" where
  "unflatten m x =
     (x div (length (EPart m) * length (IPart m) * length (HPart m)),
      (x div (length (IPart m) * length (HPart m))) mod length (EPart m),
      (x div length (HPart m)) mod length (IPart m),
      x mod length (HPart m))"

definition inRange :: "binModel \<Rightarrow> (nat \<times> nat \<times> nat \<times> nat) set" where
  "inRange m = {..<length (QPart m)} \<times> {..<length (EPart m)} \<times> {..<length (IPart m)}
                 \<times> {..<length (HPart m)}"

definition modelSize :: "binModel \<Rightarrow> nat" where
  "modelSize m = length (QPart m) * length (EPart m) * length (IPart m) * length (HPart m)"

text \<open>One of the three loops of \<open>Qei\<close>, started at index \<open>k\<close>:
  \<open>for v >= part[k] { k++; if k == len(part) { return } }\<close>.
  \<open>OutOfModel\<close> is the early return, \<open>IndexPanic\<close> the read of an empty partition.\<close>

datatype scan = Found nat | OutOfModel nat | IndexPanic

function partScan :: "real \<Rightarrow> real list \<Rightarrow> nat \<Rightarrow> scan" where
  "partScan v part k =
     (if length part \<le> k then IndexPanic
      else if v \<ge> part ! k
        then (if k + 1 = length part then OutOfModel (k + 1) else partScan v part (k + 1))
        else Found k)"
  by pat_completeness auto
termination
  by (relation "measure (\<lambda>(v, part, k). length part - k)") auto

declare partScan.simps [simp del]

definition Qei :: "binModel \<Rightarrow> real \<Rightarrow> real \<Rightarrow> real \<Rightarrow> (nat \<times> nat \<times> nat \<times> bool) option" where
  "Qei m q e i =
     (case partScan q (QPart m) 0 of
        IndexPanic \<Rightarrow> None
      | OutOfModel qx \<Rightarrow> Some (qx, 0, 0, False)
      | Found qx \<Rightarrow>
          (case partScan e (EPart m) 0 of
             IndexPanic \<Rightarrow> None
           | OutOfModel ex \<Rightarrow> Some (qx, ex, 0, False)
           | Found ex \<Rightarrow>
               (case partScan i (IPart m) 0 of
                  IndexPanic \<Rightarrow> None
                | OutOfModel ix \<Rightarrow> Some (qx, ex, ix, False)
                | Found ix \<Rightarrow> Some (qx, ex, ix, True))))"

text \<open>\<open>for ; h >= HPart[ih] && ih < LastH; ih++ {}\<close>: the read of \<open>HPart[ih]\<close> comes first.\<close>

function Hloop :: "binModel \<Rightarrow> real \<Rightarrow> nat \<Rightarrow> nat option" where
  "Hloop m h ih =
     (if length (HPart m) \<le> ih then None
      else if h \<ge> HPart m ! ih \<and> int ih < LastH m then Hloop m h (ih + 1)
      else Some ih)"
  by pat_completeness auto
termination
  by (relation "measure (\<lambda>(m, h, ih). length (HPart m) - ih)") auto

declare Hloop.simps [simp del]

definition H :: "binModel \<Rightarrow> real \<Rightarrow> nat option" where
  "H m h = Hloop m h 0"

text \<open>The words of the specification: \<open>k\<close> is the smallest index with \<open>v < part[k]\<close>.\<close>

definition firstBelow :: "real \<Rightarrow> real list \<Rightarrow> nat \<Rightarrow> bool" where
  "firstBelow v part k \<longleftrightarrow> k < length part \<and> v < part ! k \<and> (\<forall>j<k. \<not> v < part ! j)"

subsubsection \<open>Orbit classes\<close>

definition isMpcint :: "real \<Rightarrow> real \<Rightarrow> real \<Rightarrow> real \<Rightarrow> bool" where
  "isMpcint q e i h \<longleftrightarrow> q < 1.3 \<or> e \<ge> 0.5 \<or> i \<ge> 40 \<or> q * (1 + e) / (1 - e) > 10"

definition isNeo :: "real \<Rightarrow> real \<Rightarrow> real \<Rightarrow> real \<Rightarrow> bool" where
  "isNeo q e i h \<longleftrightarrow> q < 1.3"

definition isH18Neo :: "real \<Rightarrow> real \<Rightarrow> real \<Rightarrow> real \<Rightarrow> bool" where
  "isH18Neo q e i h \<longleftrightarrow> q < 1.3 \<and> h < 18.5"

definition isCMO :: "real \<Rightarrow> real \<Rightarrow> real \<Rightarrow> real \<Rightarrow> bool" where
  "isCMO q e i h \<longleftrightarrow> q < 1.3 \<and> h < 22.5"

definition isMarsCrosser :: "real \<Rightarrow> real \<Rightarrow> real \<Rightarrow> real \<Rightarrow> bool" where
  "isMarsCrosser q e i h \<longleftrightarrow> q < 1.67 \<and> q \<ge> 1.3 \<and> q * (1 + e) / (1 - e) > 1.58"

definition isHungaria :: "real \<Rightarrow> real \<Rightarrow> real \<Rightarrow> real \<Rightarrow> bool" where
  "isHungaria q e i h =
     (if e > 0.18 \<or> i < 16 \<or> i > 34 then False
      else let a = q / (1 - e) in a < 2 \<and> a > 1.78)"

definition isPhocaea :: "real \<Rightarrow> real \<Rightarrow> real \<Rightarrow> real \<Rightarrow> bool" where
  "isPhocaea q e i h =
     (if q < 1.5 \<or> i < 20 \<or> i > 27 then False
      else let a = q / (1 - e) in a < 2.45 \<and> a > 2.2)"

definition isInnerMB :: "real \<Rightarrow> real \<Rightarrow> real \<Rightarrow> real \<Rightarrow> bool" where
  "isInnerMB q e i h =
     (if q < 1.67 then False
      else let a = q / (1 - e) in a < 2.5 \<and> a > 2.1 \<and> i < ((a - 2.1) / 0.4) * 10 + 7)"

definition isHansa :: "real \<Rightarrow> real \<Rightarrow> real \<Rightarrow> real \<Rightarrow> bool" where
  "isHansa q e i h =
     (if e > 0.25 \<or> i < 20 \<or> i > 23.5 then False
      else let a = q / (1 - e) in a < 2.72 \<and> a > 2.55)"

definition isPallas :: "real \<Rightarrow> real \<Rightarrow> real \<Rightarrow> real \<Rightarrow> bool" where
  "isPallas q e i h =
     (if e > 0.35 \<or> i < 24 \<or> i > 37 then False
      else let a = q / (1 - e) in a < 2.8 \<and> a > 2.5)"

definition isMidMB :: "real \<Rightarrow> real \<Rightarrow> real \<Rightarrow> real \<Rightarrow> bool" where
  "isMidMB q e i h =
     (if e > 0.45 \<or> i > 20 then False
      else let a = q / (1 - e) in a < 2.8 \<and> a > 2.5)"

definition isOuterMB :: "real \<Rightarrow> real \<Rightarrow> real \<Rightarrow> real \<Rightarrow> bool" where
  "isOuterMB q e i h =
     (if e > 0.4 then False
      else let a = q / (1 - e) in a > 2.8 \<and> a < 3.25 \<and> i < ((a - 2.8) / 0.45) * 16 + 20)"

definition isHilda :: "real \<Rightarrow> real \<Rightarrow> real \<Rightarrow> real \<Rightarrow> bool" where
  "isHilda q e i h =
     (if i > 18 \<or> e > 0.4 then False
      else let a = q / (1 - e) in a > 3.9 \<and> a < 4.02)"

definition isTrojan :: "real \<Rightarrow> real \<Rightarrow> real \<Rightarrow> real \<Rightarrow> bool" where
  "isTrojan q e i h =
     (if e > 0.22 \<or> i > 38 then False
      else let a = q / (1 - e) in a > 5.05 \<and> a < 5.35)"

definition isJFC :: "real \<Rightarrow> real \<Rightarrow> real \<Rightarrow> real \<Rightarrow> bool" where
  "isJFC q e i h =
     (if q < 1.3 then False
      else let tj = 5.2 * (1 - e) / q + 2 * sqrt (q * (1 + e) / 5.2) * cos (i * pi / 180)
           in tj < 3 \<and> tj > 2)"

record classEntry =
  Abbr :: string
  Heading :: string
  IsClass :: "real \<Rightarrow> real \<Rightarrow> real \<Rightarrow> real \<Rightarrow> bool"

definition CList :: "classEntry list" where
  "CList =
    [\<lparr>Abbr = ''Int'', Heading = ''MPC interest.'', IsClass = isMpcint\<rparr>,
     \<lparr>Abbr = ''NEO'', Heading = ''NEO(q < 1.3)'', IsClass = isNeo\<rparr>,
     \<lparr>Abbr = ''N22'', Heading = ''NEO(H <= 22)'', IsClass = isCMO\<rparr>,
     \<lparr>Abbr = ''N18'', Heading = ''NEO(H <= 18)'', IsClass = isH18Neo\<rparr>,
     \<lparr>Abbr = ''MC'', Heading = ''Mars Crosser'', IsClass = isMarsCrosser\<rparr>,
     \<lparr>Abbr = ''Hun'', Heading = ''Hungaria gr.'', IsClass = isHungaria\<rparr>,
     \<lparr>Abbr = ''Pho'', Heading = ''Phocaea group'', IsClass = isPhocaea\<rparr>,
     \<lparr>Abbr = ''MB1'', Heading = ''Inner MB'', IsClass = isInnerMB\<rparr>,
     \<lparr>Abbr = ''Pal'', Heading = ''Pallas group'', IsClass = isPallas\<rparr>,
     \<lparr>Abbr = ''Han'', Heading = ''Hansa group'', IsClass = isHansa\<rparr>,
     \<lparr>Abbr = ''MB2'', Heading = ''Middle MB'', IsClass = isMidMB\<rparr>,
     \<lparr>Abbr = ''MB3'', Heading = ''Outer MB'', IsClass = isOuterMB\<rparr>,
     \<lparr>Abbr = ''Hil'', Heading = ''Hilda group'', IsClass = isHilda\<rparr>,
     \<lparr>Abbr = ''JTr'', Heading = ''Jupiter tr.'', IsClass = isTrojan\<rparr>,
     \<lparr>Abbr = ''JFC'', Heading = ''Jupiter Comet'', IsClass = isJFC\<rparr>]"

text \<open>Population counts: \<open>SS\<close> for all classes together, \<open>Class\<close> per class.\<close>

record Model =
  SS :: "real list"
  Class :: "real list list"

subsection \<open>Vectors (package coord)\<close>

record Cart =
  X :: real
  Y :: real
  Z :: real

text \<open>Modelled from the spec: package coord is not part of the sources. Section 4.1 of the
  specification lists the operations: sum, difference, scalar multiply, dot product, cross
  product, squared magnitude, and rotation about the X axis by an angle given by its sine and
  cosine. No property proved below depends on the sense of the rotation.\<close>

definition Add :: "Cart \<Rightarrow> Cart \<Rightarrow> Cart" where
  "Add a b = \<lparr>X = X a + X b, Y = Y a + Y b, Z = Z a + Z b\<rparr>"

definition Sub :: "Cart \<Rightarrow> Cart \<Rightarrow> Cart" where
  "Sub a b = \<lparr>X = X a - X b, Y = Y a - Y b, Z = Z a - Z b\<rparr>"

definition MulScalar :: "Cart \<Rightarrow> real \<Rightarrow> Cart" where
  "MulScalar a s = \<lparr>X = X a * s, Y = Y a * s, Z = Z a * s\<rparr>"

definition Dot :: "Cart \<Rightarrow> Cart \<Rightarrow> real" where
  "Dot a b = X a * X b + Y a * Y b + Z a * Z b"

definition Cross :: "Cart \<Rightarrow> Cart \<Rightarrow> Cart" where
  "Cross a b = \<lparr>X = Y a * Z b - Z a * Y b, Y = Z a * X b - X a * Z b,
                 Z = X a * Y b - Y a * X b\<rparr>"

definition Square :: "Cart \<Rightarrow> real" where
  "Square a = X a * X a + Y a * Y a + Z a * Z a"

definition RotateX :: "Cart \<Rightarrow> real \<Rightarrow> real \<Rightarrow> Cart" where
  "RotateX a sa ca = \<lparr>X = X a, Y = Y a * ca + Z a * sa, Z = Z a * ca - Y a * sa\<rparr>"

definition zeroCart :: Cart where
  "zeroCart = \<lparr>X = 0, Y = 0, Z = 0\<rparr>"

subsection \<open>Astronomy primitives (package astro)\<close>

definition astro_K :: real where
  "astro_K = 0.01720209895"

definition astro_InvK :: real where
  "astro_InvK = 1 / astro_K"

definition astro_U :: real where
  "astro_U = astro_K * astro_K"

text \<open>\<open>AeiHv\<close> returns the named results \<open>a\<close>, \<open>e\<close>, \<open>i\<close> and the pointer \<open>hvp\<close>; a nil
  pointer is \<open>None\<close>. The two early returns hand back the named results as they stand.\<close>

definition AeiHv :: "Cart \<Rightarrow> Cart \<Rightarrow> real \<Rightarrow> real \<times> real \<times> real \<times> Cart option" where
  "AeiHv p v d =
     (let hv = Cross p v;
          hsq = Square hv;
          hm = sqrt hsq;
          vsq = Square v;
          temp = 2 - d * vsq
      in if d > temp * 100 then (0, 0, 0, None)
         else
           let a = d / temp;
               inva = temp / d;
               e = sqrt (1 - hsq * inva)
           in if e > 0.99 then (a, e, 0, None)
              else
                let iZero = (Z hv \<ge> hm);
                    i = (if \<not> iZero then arccos (Z hv / hm) * 180 / pi else 0)
                in (a, e, i, Some hv))"

definition HMag :: "Cart \<Rightarrow> Cart \<Rightarrow> real \<Rightarrow> real \<Rightarrow> real \<Rightarrow> real" where
  "HMag oov sov vmag ood sod =
     (let rdelta = ood * sod;
          cospsi = Dot oov sov / rdelta
      in if cospsi < - 0.9999 then 30
         else
           let tanhalf = sqrt (1 - cospsi * cospsi) / (1 + cospsi);
               phi1 = exp (- 3.33 * (tanhalf powr 0.63));
               phi2 = exp (- 1.87 * (tanhalf powr 1.22))
           in vmag - 5 * log 10 rdelta + 2.5 * log 10 (0.85 * phi1 + 0.15 * phi2))"

definition Se2000 :: "real \<Rightarrow> Cart \<times> real \<times> real" where
  "Se2000 mjd =
     (let d = mjd - 51544.5;
          g = 357.529 + 0.98560028 * d;
          q = 280.459 + 0.98564736 * d;
          g2 = g + g;
          sg = sin (g * pi / 180); cg = cos (g * pi / 180);
          sg2 = sin (g2 * pi / 180); cg2 = cos (g2 * pi / 180);
          l = q + 1.915 * sg + 0.020 * sg2;
          r = 1.00014 - 0.01671 * cg - 0.00014 * cg2;
          e = 23.439 - 0.00000036 * d;
          soe = sin (e * pi / 180); coe = cos (e * pi / 180);
          sl = sin (l * pi / 180); cl = cos (l * pi / 180);
          rsl = r * sl
      in (\<lparr>X = r * cl, Y = rsl * coe, Z = rsl * soe\<rparr>, soe, coe))"

text \<open>\<open>math.Atan2\<close> on finite arguments.\<close>

definition Atan2 :: "real \<Rightarrow> real \<Rightarrow> real" where
  "Atan2 y x =
     (if x > 0 then arctan (y / x)
      else if x < 0 then (if y \<ge> 0 then arctan (y / x) + pi else arctan (y / x) - pi)
      else if y > 0 then pi / 2
      else if y < 0 then - pi / 2
      else 0)"

subsection \<open>Observations and the arc validator\<close>

text \<open>The packages that define observations are not part of the sources. An observation is
  modelled by what the solver reads of it: the measurement returned by \<open>Meas\<close> and the vector
  returned by \<open>EarthObserverVect\<close>. The fields the older sources call \<open>Mjd\<close>, \<open>Ra\<close> and
  \<open>Vmag\<close> are \<open>MJD\<close>, \<open>RA\<close> and \<open>VMag\<close> in the newer ones.\<close>

record VMeas =
  Mjd :: real
  Ra :: real
  Dec :: real
  Vmag :: real
  Qual :: string

record VObs =
  Meas :: VMeas
  EarthObserverVect :: Cart

record Arc =
  Desig :: string
  Obs :: "VObs list"

text \<open>The loop of \<open>sendValid\<close> over the observation times, with \<open>t0\<close> the time seen last;
  \<open>False\<close> is the return from inside the loop.\<close>

fun timesIncrease :: "real \<Rightarrow> VObs list \<Rightarrow> bool" where
  "timesIncrease t0 [] = True"
| "timesIncrease t0 (ob # obs) =
     (let t = Mjd (Meas ob) in if t \<le> t0 then False else timesIncrease t obs)"

text \<open>\<open>sendValid\<close> sends a copy of the arc on the channel or returns without sending:
  \<open>Some\<close> is the arc sent, \<open>None\<close> a dropped arc.\<close>

definition sendValid :: "Arc \<Rightarrow> Arc option" where
  "sendValid a =
     (if length (Obs a) < 2 then None
      else if \<not> timesIncrease 0 (Obs a) then None
      else
        let first = Meas (Obs a ! 0);
            last = Meas (Obs a ! (length (Obs a) - 1))
        in if Ra first = Ra last \<and> Dec first = Dec last then None
           else Some \<lparr>Desig = Desig a, Obs = [] @ Obs a\<rparr>)"

subsection \<open>The solver (package d2solver)\<close>

text \<open>The field \<open>bins\<close> stands for the package variables of d2bin that the solver reads.\<close>

record D2Solver =
  allM :: Model
  unkM :: Model
  classCompute :: "nat list"
  obsErrMap :: "string \<rightharpoonup> real"
  obsErrDefault :: real
  bins :: binModel

text \<open>\<open>clipErr\<close> of solver/cliperr.go, on \<open>float64\<close>.\<close>

definition clipErr :: "D2Solver \<Rightarrow> real \<Rightarrow> string \<Rightarrow> real" where
  "clipErr s computedRms qual =
     (let defaultErr = (case obsErrMap s qual of Some e \<Rightarrow> e | None \<Rightarrow> obsErrDefault s)
      in if defaultErr = 0 then 0
         else if computedRms = 0 then defaultErr
         else
           let computedErr = computedRms * pi / (180 * 3600)
           in if defaultErr > computedErr then defaultErr else computedErr)"

text \<open>\<open>clipErr\<close> of the newer sources, on \<open>unit.Angle\<close> (radians).\<close>

definition clipErrAngle :: "D2Solver \<Rightarrow> real \<Rightarrow> string \<Rightarrow> real" where
  "clipErrAngle s computedRms qual =
     (let defaultErr = (case obsErrMap s qual of Some e \<Rightarrow> e | None \<Rightarrow> obsErrDefault s)
      in if defaultErr = 0 then 0
         else if computedRms = 0 then defaultErr
         else if defaultErr > computedRms then defaultErr else computedRms)"

text \<open>A \<open>map[int]bool\<close> is an association list without repeated keys; a missing key reads as
  \<open>false\<close>. The order of the list is the order in which \<open>range\<close> visits the map.\<close>

type_synonym tagMap = "(nat \<times> bool) list"

definition lookup :: "tagMap \<Rightarrow> nat \<Rightarrow> bool" where
  "lookup m k = (case map_of m k of None \<Rightarrow> False | Some b \<Rightarrow> b)"

fun store :: "tagMap \<Rightarrow> nat \<Rightarrow> bool \<Rightarrow> tagMap" where
  "store [] k b = [(k, b)]"
| "store ((k', b') # m) k b = (if k' = k then (k, b) # m else (k', b') # store m k b)"

definition elemAt :: "'a list \<Rightarrow> nat \<Rightarrow> 'a option" where
  "elemAt xs i = (if i < length xs then Some (xs ! i) else None)"

record Scores =
  Raw :: real
  NoId :: real

record classStats =
  tagInClass :: tagMap
  tagNonClass :: tagMap
  sumAllInClass :: real
  sumAllNonClass :: real
  sumUnkInClass :: real
  sumUnkNonClass :: real
  dInClass :: tagMap
  dNonClass :: tagMap

text \<open>\<open>twoObs\<close> needs the great-circle fit of package lmfit, which is not part of the sources.
  Its outcome is an input of the model: the two observations it selects or synthesises, the
  two values it returns and the value it stores in \<open>rms\<close>.\<close>

record twoObsOutcome =
  toFirst :: VObs
  toLast :: VObs
  toFirstRms :: real
  toLastRms :: real
  toRms :: real

text \<open>The workspace. The random source \<open>rnd\<close> is the sequence of the numbers that its
  \<open>Float64\<close> returns, with \<open>rndCalls\<close> the number of calls made. The last two fields are
  history variables that no function reads: \<open>searchAnglesCalls\<close> counts the calls of
  \<open>searchAngles\<close>, and \<open>promotions\<close> records each promotion of a distance-scope tag as
  (index into \<open>cs\<close>, bin, in-class).\<close>

record tracklet =
  solver :: D2Solver
  otk :: twoObsOutcome
  vmag :: real
  rnd :: "nat \<Rightarrow> real"
  rndCalls :: nat
  rms :: real
  classScores :: "Scores list"
  cs :: "classStats list"
  first_obs :: VObs
  last_obs :: VObs
  firstObsErr :: real
  lastObsErr :: real
  noObsErr :: bool
  dt :: real
  invdt :: real
  invdtsq :: real
  soe :: real
  coe :: real
  sunObserver0 :: Cart
  sunObserver1 :: Cart
  observerObjectUnit0 :: Cart
  observerObjectUnit1 :: Cart
  observerObject0 :: Cart
  observerObject0Mag :: real
  sunObject0 :: Cart
  sunObject0Mag :: real
  sunObject0MagSq :: real
  observer1Object0 :: Cart
  observer1Object0Mag :: real
  observer1Object0MagSq :: real
  tz :: real
  hmag :: real
  hmagBin :: nat
  dAnyTag :: bool
  dTag :: tagMap
  hv_vec :: Cart
  v_vec :: Cart
  searchAnglesCalls :: nat
  promotions :: "(nat \<times> nat \<times> bool) list"

definition zeroObs :: VObs where
  "zeroObs = \<lparr>Meas = \<lparr>Mjd = 0, Ra = 0, Dec = 0, Vmag = 0, Qual = []\<rparr>,
              EarthObserverVect = zeroCart\<rparr>"

definition newClassStats :: classStats where
  "newClassStats =
     \<lparr>tagInClass = [], tagNonClass = [], sumAllInClass = 0, sumAllNonClass = 0,
      sumUnkInClass = 0, sumUnkNonClass = 0, dInClass = [], dNonClass = []\<rparr>"

definition newTracklet :: "D2Solver \<Rightarrow> twoObsOutcome \<Rightarrow> real \<Rightarrow> (nat \<Rightarrow> real) \<Rightarrow> tracklet" where
  "newTracklet s o2 vm rn =
     \<lparr>solver = s, otk = o2, vmag = vm, rnd = rn, rndCalls = 0, rms = 0,
      classScores = replicate (length (classCompute s)) \<lparr>Raw = 0, NoId = 0\<rparr>,
      cs = replicate (length (classCompute s)) newClassStats,
      first_obs = zeroObs, last_obs = zeroObs, firstObsErr = 0, lastObsErr = 0,
      noObsErr = False, dt = 0, invdt = 0, invdtsq = 0, soe = 0, coe = 0,
      sunObserver0 = zeroCart, sunObserver1 = zeroCart,
      observerObjectUnit0 = zeroCart, observerObjectUnit1 = zeroCart,
      observerObject0 = zeroCart, observerObject0Mag = 0,
      sunObject0 = zeroCart, sunObject0Mag = 0, sunObject0MagSq = 0,
      observer1Object0 = zeroCart, observer1Object0Mag = 0, observer1Object0MagSq = 0,
      tz = 0, hmag = 0, hmagBin = 0, dAnyTag = False, dTag = [],
      hv_vec = zeroCart, v_vec = zeroCart,
      searchAnglesCalls = 0, promotions = []\<rparr>"

definition min_distance :: real where "min_distance = 0.05"
definition max_distance :: real where "max_distance = 100"
definition minDistanceStep :: real where "minDistanceStep = 0.2"
definition minAngleStep :: real where "minAngleStep = 0.1"
definition ageLimit :: nat where "ageLimit = 1"

definition twoObs :: "tracklet \<Rightarrow> real \<times> real \<times> tracklet" where
  "twoObs tk =
     (toFirstRms (otk tk), toLastRms (otk tk),
      tk\<lparr>first_obs := toFirst (otk tk), last_obs := toLast (otk tk), rms := toRms (otk tk)\<rparr>)"

definition sov :: "VObs \<Rightarrow> tracklet \<Rightarrow> Cart \<times> tracklet" where
  "sov ob tk =
     (case Se2000 (Mjd (Meas ob)) of (sunEarth, s, c) \<Rightarrow>
        let tk1 = tk\<lparr>soe := s, coe := c\<rparr>;
            earthSite = EarthObserverVect ob;
            sunObserver = Sub earthSite sunEarth
        in (RotateX sunObserver (soe tk1) (coe tk1), tk1))"

definition clearDTags :: "tracklet \<Rightarrow> tracklet" where
  "clearDTags tk =
     tk\<lparr>dAnyTag := False, dTag := [],
        cs := map (\<lambda>s. s\<lparr>dInClass := (if length (dInClass s) > 0 then [] else dInClass s),
                          dNonClass := (if length (dNonClass s) > 0 then [] else dNonClass s)\<rparr>)
                (cs tk)\<rparr>"

definition oouv :: "tracklet \<Rightarrow> VMeas \<Rightarrow> real \<Rightarrow> real \<Rightarrow> real \<Rightarrow> Cart" where
  "oouv tk sky obsErr rx dx =
     (let sdec = sin (Dec sky + dx * obsErr * 0.5);
          cdec = cos (Dec sky + dx * obsErr * 0.5);
          sra = sin (Ra sky + rx * obsErr * 0.5 * cdec);
          cra = cos (Ra sky + rx * obsErr * 0.5 * cdec)
      in RotateX \<lparr>X = cra * cdec, Y = sra * cdec, Z = sdec\<rparr> (soe tk) (coe tk))"

definition offsetMotionVector :: "real \<Rightarrow> real \<Rightarrow> tracklet \<Rightarrow> tracklet" where
  "offsetMotionVector rx dx tk =
     (let tk1 = tk\<lparr>observerObjectUnit0 := oouv tk (Meas (first_obs tk)) (firstObsErr tk) rx dx\<rparr>
      in tk1\<lparr>observerObjectUnit1 :=
               oouv tk1 (Meas (last_obs tk1)) (lastObsErr tk1) (- rx) (- dx)\<rparr>)"

definition solveDistanceDependentVectors :: "real \<Rightarrow> tracklet \<Rightarrow> tracklet option" where
  "solveDistanceDependentVectors d tk =
     (let oo0 = MulScalar (observerObjectUnit0 tk) d;
          so0 = Add (sunObserver0 tk) oo0;
          so0sq = Square so0;
          so0m = sqrt so0sq;
          o1o0 = Sub so0 (sunObserver1 tk);
          o1o0sq = Square o1o0;
          o1o0m = sqrt o1o0sq;
          hm = HMag oo0 so0 (vmag tk) d so0m
      in case H (bins (solver tk)) hm of
           None \<Rightarrow> None
         | Some hb \<Rightarrow>
             Some (tk\<lparr>observerObject0Mag := d, observerObject0 := oo0,
                      sunObject0 := so0, sunObject0MagSq := so0sq, sunObject0Mag := so0m,
                      observer1Object0 := o1o0, observer1Object0MagSq := o1o0sq,
                      observer1Object0Mag := o1o0m, hmag := hm, hmagBin := hb\<rparr>))"

text \<open>The body of the loop of \<open>solveAngleRange\<close>: the angle for the root chosen by \<open>sd1\<close>.\<close>

definition rootAngle :: "tracklet \<Rightarrow> real \<Rightarrow> real \<Rightarrow> real \<Rightarrow> real \<Rightarrow> real" where
  "rootAngle tk th bb inv2aa sd1 =
     (let d2 = (- bb + sd1) * inv2aa;
          d2s = d2 * d2;
          nns = d2s + observer1Object0MagSq tk - 2 * d2 * observer1Object0Mag tk * th;
          nn = sqrt nns;
          ca = (nns + observer1Object0MagSq tk - d2s) / (2 * nn * observer1Object0Mag tk);
          sa = d2 * sin (tz tk) / nn
      in 2 * Atan2 sa (1 + ca))"

text \<open>The loop runs with \<open>sd1 = -sd\<close>, stores the angle in \<open>ang1\<close>, runs with \<open>sd1 = sd\<close> and
  breaks; were \<open>-sd\<close> equal to \<open>sd\<close> it would break in the first round with \<open>ang1\<close> still 0.\<close>

definition solveAngleRange :: "tracklet \<Rightarrow> real \<times> real \<times> bool \<times> tracklet" where
  "solveAngleRange tk =
     (let th = Dot (observer1Object0 tk) (observerObjectUnit1 tk) / observer1Object0Mag tk;
          tk1 = tk\<lparr>tz := arccos th\<rparr>;
          aa = invdtsq tk1;
          bb = - 2 * observer1Object0Mag tk1 * th * aa;
          cc = observer1Object0MagSq tk1 * aa - 2 * astro_U / sunObject0Mag tk1;
          dsc = bb * bb - 4 * aa * cc
      in if \<not> (dsc > 0) then (0, 0, False, tk1)
         else
           let sd = sqrt dsc;
               inv2aa = 0.5 / aa
           in if - sd = sd then (0, rootAngle tk1 th bb inv2aa (- sd), True, tk1)
              else (rootAngle tk1 th bb inv2aa (- sd), rootAngle tk1 th bb inv2aa sd, True, tk1))"

text \<open>The loop of \<open>tagAngle\<close> over \<open>classCompute\<close>, at index \<open>cx\<close>.\<close>

fun tagClasses ::
  "nat \<Rightarrow> real \<Rightarrow> real \<Rightarrow> real \<Rightarrow> real \<Rightarrow> nat \<Rightarrow> nat list \<Rightarrow> classStats list \<Rightarrow> bool
     \<Rightarrow> (bool \<times> classStats list) option" where
  "tagClasses bx q e i h cx [] css newTag = Some (newTag, css)"
| "tagClasses bx q e i h cx (c # rest) css newTag =
     (if length css \<le> cx \<or> length CList \<le> c then None
      else
        let s = css ! cx
        in if IsClass (CList ! c) q e i h
           then (if \<not> lookup (dInClass s) bx
                 then tagClasses bx q e i h (cx + 1) rest
                        (css[cx := s\<lparr>dInClass := store (dInClass s) bx True\<rparr>]) True
                 else tagClasses bx q e i h (cx + 1) rest css newTag)
           else (if \<not> lookup (dNonClass s) bx
                 then tagClasses bx q e i h (cx + 1) rest
                        (css[cx := s\<lparr>dNonClass := store (dNonClass s) bx True\<rparr>]) True
                 else tagClasses bx q e i h (cx + 1) rest css newTag))"

definition tagAngle :: "real \<Rightarrow> tracklet \<Rightarrow> (bool \<times> tracklet) option" where
  "tagAngle an tk =
     (let s = observer1Object0Mag tk * sin an / sin (pi - an - tz tk);
          tk1 = tk\<lparr>v_vec := MulScalar (Sub (MulScalar (observerObjectUnit1 tk) s)
                                            (observer1Object0 tk))
                                       (invdt tk * astro_InvK)\<rparr>
      in case AeiHv (sunObject0 tk1) (v_vec tk1) (sunObject0Mag tk1) of
           (a, e, i, None) \<Rightarrow> Some (False, tk1)
         | (a, e, i, Some hv) \<Rightarrow>
             let tk2 = tk1\<lparr>hv_vec := hv\<rparr>;
                 q = a * (1 - e)
             in (case Qei (bins (solver tk2)) q e i of
                   None \<Rightarrow> None
                 | Some (iq, ie, ii, inModel) \<Rightarrow>
                     if \<not> inModel then Some (False, tk2)
                     else
                       let ih = hmagBin tk2;
                           bx = Mx (bins (solver tk2)) iq ie ii ih
                       in (case tagClasses bx q e i (hmag tk2) 0 (classCompute (solver tk2))
                                  (cs tk2) False of
                             None \<Rightarrow> None
                           | Some (newTag, css) \<Rightarrow>
                               let tk3 = tk2\<lparr>cs := css\<rparr>
                               in Some (newTag,
                                    if newTag
                                    then tk3\<lparr>dAnyTag := True, dTag := store (dTag tk3) bx True\<rparr>
                                    else tk3))))"

text \<open>\<open>aRange\<close>, with a budget for the depth of the recursion.\<close>

fun aRange :: "nat \<Rightarrow> real \<Rightarrow> real \<Rightarrow> nat \<Rightarrow> tracklet \<Rightarrow> tracklet option" where
  "aRange 0 ang1 ang2 age tk = None"
| "aRange (Suc n) ang1 ang2 age tk =
     (let d3 = (ang2 - ang1) / 3;
          mid = ang1 + d3 + d3 * rnd tk (rndCalls tk);
          tk1 = tk\<lparr>rndCalls := rndCalls tk + 1\<rparr>
      in case tagAngle mid tk1 of
           None \<Rightarrow> None
         | Some (t, tk2) \<Rightarrow>
             if t \<or> d3 > minAngleStep
             then (case aRange n ang1 mid 0 tk2 of
                     None \<Rightarrow> None
                   | Some tk3 \<Rightarrow> aRange n mid ang2 0 tk3)
             else if age < ageLimit
             then (case aRange n ang1 mid (age + 1) tk2 of
                     None \<Rightarrow> None
                   | Some tk3 \<Rightarrow> aRange n mid ang2 (age + 1) tk3)
             else Some tk2)"

declare aRange.simps [simp del]

text \<open>The body of the inner loop of \<open>searchAngles\<close> for the class at index \<open>cx\<close> and the bin
  \<open>i\<close>, on \<open>newTag\<close>, the statistics \<open>cs[cx]\<close> and the record of promotions.\<close>

definition promoteBody ::
  "D2Solver \<Rightarrow> nat \<Rightarrow> nat \<Rightarrow> nat \<Rightarrow> bool \<times> classStats \<times> (nat \<times> nat \<times> bool) list
     \<Rightarrow> (bool \<times> classStats \<times> (nat \<times> nat \<times> bool) list) option" where
  "promoteBody sv cx c i st =
     (case st of (newTag, s, lg) \<Rightarrow>
        (case (if lookup (dInClass s) i \<and> \<not> lookup (tagInClass s) i
               then (case (elemAt (Class (allM sv)) c, elemAt (Class (unkM sv)) c) of
                       (Some ca, Some cu) \<Rightarrow>
                         (case (elemAt ca i, elemAt cu i) of
                            (Some a, Some u) \<Rightarrow>
                              Some (True,
                                    s\<lparr>tagInClass := store (tagInClass s) i True,
                                      sumAllInClass := f64add (sumAllInClass s) a,
                                      sumUnkInClass := f64add (sumUnkInClass s) u\<rparr>,
                                    lg @ [(cx, i, True)])
                          | _ \<Rightarrow> None)
                     | _ \<Rightarrow> None)
               else Some (newTag, s, lg)) of
           None \<Rightarrow> None
         | Some (newTag1, s1, lg1) \<Rightarrow>
             if lookup (dNonClass s1) i \<and> \<not> lookup (tagNonClass s1) i
             then (case (elemAt (Class (allM sv)) c, elemAt (Class (unkM sv)) c) of
                     (Some ca, Some cu) \<Rightarrow>
                       (case (elemAt (SS (allM sv)) i, elemAt ca i, elemAt (SS (unkM sv)) i, elemAt cu i) of
                          (Some sa, Some a, Some su, Some u) \<Rightarrow>
                            Some (True,
                                  s1\<lparr>tagNonClass := store (tagNonClass s1) i True,
                                     sumAllNonClass := f64add (sumAllNonClass s1) (f64sub sa a),
                                     sumUnkNonClass := f64add (sumUnkNonClass s1) (f64sub su u)\<rparr>,
                                  lg1 @ [(cx, i, False)])
                        | _ \<Rightarrow> None)
                   | _ \<Rightarrow> None)
             else Some (newTag1, s1, lg1)))"

fun promoteClasses ::
  "nat \<Rightarrow> nat \<Rightarrow> nat list \<Rightarrow> bool \<Rightarrow> tracklet \<Rightarrow> (bool \<times> tracklet) option" where
  "promoteClasses i cx [] newTag tk = Some (newTag, tk)"
| "promoteClasses i cx (c # rest) newTag tk =
     (case elemAt (cs tk) cx of
        None \<Rightarrow> None
      | Some s \<Rightarrow>
          (case promoteBody (solver tk) cx c i (newTag, s, promotions tk) of
             None \<Rightarrow> None
           | Some (newTag1, s1, lg1) \<Rightarrow>
               promoteClasses i (cx + 1) rest newTag1
                 (tk\<lparr>cs := (cs tk)[cx := s1], promotions := lg1\<rparr>)))"

text \<open>The outer loop of \<open>searchAngles\<close> over the entries of \<open>dTag\<close>.\<close>

fun promoteBins :: "tagMap \<Rightarrow> bool \<Rightarrow> tracklet \<Rightarrow> (bool \<times> tracklet) option" where
  "promoteBins [] newTag tk = Some (newTag, tk)"
| "promoteBins ((i, dtag) # rest) newTag tk =
     (if dtag
      then (case promoteClasses i 0 (classCompute (solver tk)) newTag tk of
              None \<Rightarrow> None
            | Some (newTag1, tk1) \<Rightarrow> promoteBins rest newTag1 tk1)
      else promoteBins rest newTag tk)"

definition searchAngles :: "nat \<Rightarrow> tracklet \<Rightarrow> (bool \<times> tracklet) option" where
  "searchAngles fuel tk =
     (case solveAngleRange (tk\<lparr>searchAnglesCalls := searchAnglesCalls tk + 1\<rparr>) of
        (ang1, ang2, ok, tk1) \<Rightarrow>
          if \<not> ok then Some (False, tk1)
          else (case aRange fuel ang1 ang2 0 tk1 of
                  None \<Rightarrow> None
                | Some tk2 \<Rightarrow>
                    if \<not> dAnyTag tk2 then Some (False, tk2)
                    else promoteBins (dTag tk2) False tk2))"

text \<open>The two nested loops of \<open>searchDistance\<close> over \<open>ri\<close> and \<open>di\<close>, as one loop over the
  pairs that remain.\<close>

fun searchOffsets ::
  "nat \<Rightarrow> real \<Rightarrow> (real \<times> real) list \<Rightarrow> bool \<Rightarrow> tracklet \<Rightarrow> (bool \<times> tracklet) option" where
  "searchOffsets fuel d [] newTag tk = Some (newTag, tk)"
| "searchOffsets fuel d ((ri, di) # rest) newTag tk =
     (case solveDistanceDependentVectors d (offsetMotionVector ri di tk) of
        None \<Rightarrow> None
      | Some tk1 \<Rightarrow>
          (case searchAngles fuel tk1 of
             None \<Rightarrow> None
           | Some (r, tk2) \<Rightarrow>
               let newTag1 = (if r then True else newTag)
               in if noObsErr tk2 then Some (newTag1, tk2)
                  else searchOffsets fuel d rest newTag1 tk2))"

definition offsets :: "(real \<times> real) list" where
  "offsets = List.product [- 1, 0, 1] [- 1, 0, 1]"

definition searchDistance :: "nat \<Rightarrow> real \<Rightarrow> tracklet \<Rightarrow> (bool \<times> tracklet) option" where
  "searchDistance fuel d tk =
     searchOffsets fuel d offsets False ((clearDTags tk)\<lparr>dAnyTag := False\<rparr>)"

text \<open>\<open>dRange\<close>, with a budget for the depth of the recursion, which it hands on to the
  angle search.\<close>

fun dRange :: "nat \<Rightarrow> real \<Rightarrow> real \<Rightarrow> nat \<Rightarrow> tracklet \<Rightarrow> tracklet option" where
  "dRange 0 d1 d2 age tk = None"
| "dRange (Suc n) d1 d2 age tk =
     (let dmid = (d1 + d2) * 0.5
      in case searchDistance (Suc n) dmid tk of
           None \<Rightarrow> None
         | Some (r, tk1) \<Rightarrow>
             if r \<or> d2 - d1 > minDistanceStep
             then (case dRange n d1 dmid 0 tk1 of
                     None \<Rightarrow> None
                   | Some tk2 \<Rightarrow> dRange n dmid d2 0 tk2)
             else if age < ageLimit
             then (case dRange n d1 dmid (age + 1) tk1 of
                     None \<Rightarrow> None
                   | Some tk2 \<Rightarrow> dRange n dmid d2 (age + 1) tk2)
             else Some tk1)"

declare dRange.simps [simp del]

text \<open>One of the two \<open>switch\<close> statements at the end of \<open>score\<close>:
  \<open>switch d := sumIn + sumNon; { case d > 0: score = 100 * sumIn / d; ... }\<close>. The sum, the
  product and the quotient round as \<open>float64\<close> does; the class is read only when the sum is
  not positive.\<close>

definition scoreOf :: "D2Solver \<Rightarrow> nat \<Rightarrow> real \<Rightarrow> real \<Rightarrow> real option" where
  "scoreOf sv i sumIn sumNon =
     (let d = f64add sumIn sumNon
      in if d > 0 then Some (f64div (f64mul 100 sumIn) d)
         else (case elemAt (classCompute sv) i of
                 None \<Rightarrow> None
               | Some c \<Rightarrow> Some (if c < 2 then 100 else 0)))"

text \<open>The loop at the end of \<open>score\<close> over \<open>cs\<close>, at index \<open>i\<close>.\<close>

fun scoreLoop :: "nat \<Rightarrow> classStats list \<Rightarrow> tracklet \<Rightarrow> tracklet option" where
  "scoreLoop i [] tk = Some tk"
| "scoreLoop i (s # rest) tk =
     (case scoreOf (solver tk) i (sumAllInClass s) (sumAllNonClass s) of
        None \<Rightarrow> None
      | Some raw \<Rightarrow>
          (case scoreOf (solver tk) i (sumUnkInClass s) (sumUnkNonClass s) of
             None \<Rightarrow> None
           | Some noid \<Rightarrow>
               if length (classScores tk) \<le> i then None
               else scoreLoop (i + 1) rest
                      (tk\<lparr>classScores := (classScores tk)[i := \<lparr>Raw = raw, NoId = noid\<rparr>]\<rparr>)))"

text \<open>The part of \<open>score\<close> before the search.\<close>

definition scoreSetup :: "tracklet \<Rightarrow> tracklet" where
  "scoreSetup tk =
     (case twoObs tk of (firstRms, lastRms, tk1) \<Rightarrow>
        let m1 = Meas (first_obs tk1);
            m2 = Meas (last_obs tk1);
            tk2 = tk1\<lparr>firstObsErr := clipErr (solver tk1) firstRms (Qual m1)\<rparr>;
            tk3 = tk2\<lparr>lastObsErr := clipErr (solver tk2) lastRms (Qual m2)\<rparr>;
            tk4 = tk3\<lparr>dt := Mjd m2 - Mjd m1\<rparr>;
            tk5 = tk4\<lparr>invdt := 1 / dt tk4\<rparr>;
            tk6 = tk5\<lparr>invdtsq := invdt tk5 * invdt tk5\<rparr>
        in case sov (first_obs tk6) tk6 of (so0, tk7) \<Rightarrow>
             let tk8 = tk7\<lparr>sunObserver0 := so0\<rparr>
             in case sov (last_obs tk8) tk8 of (so1, tk9) \<Rightarrow>
                  let tk10 = tk9\<lparr>sunObserver1 := so1\<rparr>
                  in if firstObsErr tk10 = 0 \<and> lastObsErr tk10 = 0
                     then tk10\<lparr>noObsErr := True\<rparr> else tk10)"

definition score :: "nat \<Rightarrow> tracklet \<Rightarrow> tracklet option" where
  "score fuel tk =
     (let tk0 = scoreSetup tk
      in case searchDistance fuel min_distance tk0 of
           None \<Rightarrow> None
         | Some (r1, tk1) \<Rightarrow>
             (case searchDistance fuel max_distance tk1 of
                None \<Rightarrow> None
              | Some (r2, tk2) \<Rightarrow>
                  (case dRange fuel min_distance max_distance 0 tk2 of
                     None \<Rightarrow> None
                   | Some tk3 \<Rightarrow> scoreLoop 0 (cs tk3) tk3)))"

text \<open>\<open>Solve\<close> returns the \<open>rms\<close> and the scores of the workspace that \<open>score\<close> leaves.\<close>

definition Solve ::
  "D2Solver \<Rightarrow> twoObsOutcome \<Rightarrow> real \<Rightarrow> (nat \<Rightarrow> real) \<Rightarrow> nat \<Rightarrow> (real \<times> Scores list) option" where
  "Solve s o2 vm rn fuel =
     (case score fuel (newTracklet s o2 vm rn) of
        None \<Rightarrow> None
      | Some tk \<Rightarrow> Some (rms tk, classScores tk))"

subsection \<open>Predicates used in the proofs\<close>

text \<open>The midpoint that \<open>aRange\<close> draws.\<close>

definition aMid :: "real \<Rightarrow> real \<Rightarrow> tracklet \<Rightarrow> real" where
  "aMid ang1 ang2 tk = ang1 + (ang2 - ang1) / 3 + (ang2 - ang1) / 3 * rnd tk (rndCalls tk)"

text \<open>Two records of class statistics that differ at most in the distance-scope tags.\<close>

definition dScopeEq :: "classStats \<Rightarrow> classStats \<Rightarrow> bool" where
  "dScopeEq s s' \<longleftrightarrow>
     tagInClass s' = tagInClass s \<and> tagNonClass s' = tagNonClass s
     \<and> sumAllInClass s' = sumAllInClass s \<and> sumAllNonClass s' = sumAllNonClass s
     \<and> sumUnkInClass s' = sumUnkInClass s \<and> sumUnkNonClass s' = sumUnkNonClass s"

text \<open>What tagging at distance scope leaves unchanged.\<close>

definition tagFrame :: "tracklet \<Rightarrow> tracklet \<Rightarrow> bool" where
  "tagFrame tk tk' \<longleftrightarrow>
     solver tk' = solver tk \<and> noObsErr tk' = noObsErr tk
     \<and> rnd tk' = rnd tk
     \<and> classScores tk' = classScores tk
     \<and> searchAnglesCalls tk' = searchAnglesCalls tk
     \<and> promotions tk' = promotions tk
     \<and> invdtsq tk' = invdtsq tk
     \<and> list_all2 dScopeEq (cs tk) (cs tk')"

text \<open>What a search leaves unchanged.\<close>

definition sFrame :: "tracklet \<Rightarrow> tracklet \<Rightarrow> bool" where
  "sFrame tk tk' \<longleftrightarrow>
     solver tk' = solver tk \<and> noObsErr tk' = noObsErr tk
     \<and> rnd tk' = rnd tk
     \<and> classScores tk' = classScores tk
     \<and> invdtsq tk' = invdtsq tk
     \<and> length (cs tk') = length (cs tk)"

text \<open>A property \<open>Q\<close> of the solver, the class statistics and the record of promotions is
  stable when it does not depend on the distance-scope tags and every run of the promotion
  body for a configured class keeps it; \<open>holds Q tk\<close> reads it off a workspace.\<close>

definition stable :: "(D2Solver \<Rightarrow> classStats list \<Rightarrow> (nat \<times> nat \<times> bool) list \<Rightarrow> bool) \<Rightarrow> bool" where
  "stable Q \<longleftrightarrow>
     (\<forall>sv css css' lg. Q sv css lg \<longrightarrow> list_all2 dScopeEq css css' \<longrightarrow> Q sv css' lg)
     \<and> (\<forall>sv css lg cx i nt nt' s' lg'.
           Q sv css lg \<longrightarrow> cx < length css \<longrightarrow> cx < length (classCompute sv) \<longrightarrow>
           promoteBody sv cx (classCompute sv ! cx) i (nt, css ! cx, lg) = Some (nt', s', lg')
           \<longrightarrow> Q sv (css[cx := s']) lg')"

definition holds :: "(D2Solver \<Rightarrow> classStats list \<Rightarrow> (nat \<times> nat \<times> bool) list \<Rightarrow> bool) \<Rightarrow> tracklet \<Rightarrow> bool" where
  "holds Q tk \<longleftrightarrow> Q (solver tk) (cs tk) (promotions tk)"

text \<open>The scoring rule in the words of the specification.\<close>

definition specScore :: "nat \<Rightarrow> real \<Rightarrow> real \<Rightarrow> real" where
  "specScore c sumIn sumNon =
     (let D = sumIn + sumNon
      in if D > 0 then 100 * sumIn / D else if c < 2 then 100 else 0)"

text \<open>The same rule with the sum, the product and the quotient in \<open>float64\<close>, as the code
  computes it.\<close>

definition codeScore :: "nat \<Rightarrow> real \<Rightarrow> real \<Rightarrow> real" where
  "codeScore c sumIn sumNon =
     (let D = f64add sumIn sumNon
      in if D > 0 then f64div (f64mul 100 sumIn) D else if c < 2 then 100 else 0)"

text \<open>The precondition on a histogram: \<open>0 \<le> Class[c][x] \<le> SS[x]\<close> for every class and bin.\<close>

definition histOK :: "Model \<Rightarrow> bool" where
  "histOK h \<longleftrightarrow>
     (\<forall>c<length (Class h). \<forall>x<length (Class h ! c).
        0 \<le> Class h ! c ! x \<and> (x < length (SS h) \<longrightarrow> Class h ! c ! x \<le> SS h ! x))"

definition sumsNonneg :: "D2Solver \<Rightarrow> classStats list \<Rightarrow> (nat \<times> nat \<times> bool) list \<Rightarrow> bool" where
  "sumsNonneg sv css lg \<longleftrightarrow>
     (histOK (allM sv) \<and> histOK (unkM sv) \<longrightarrow>
        (\<forall>s\<in>set css. 0 \<le> sumAllInClass s \<and> 0 \<le> sumAllNonClass s
                      \<and> 0 \<le> sumUnkInClass s \<and> 0 \<le> sumUnkNonClass s))"

text \<open>The record of promotions has no entry twice, and each entry is in the tracklet-scope
  tag set it names.\<close>

definition promotedOnce :: "D2Solver \<Rightarrow> classStats list \<Rightarrow> (nat \<times> nat \<times> bool) list \<Rightarrow> bool" where
  "promotedOnce sv css lg \<longleftrightarrow>
     distinct lg
     \<and> (\<forall>(cx, i, b)\<in>set lg.
           cx < length css
           \<and> lookup (if b then tagInClass (css ! cx) else tagNonClass (css ! cx)) i)"

definition lengthsAgree :: "D2Solver \<Rightarrow> classStats list \<Rightarrow> (nat \<times> nat \<times> bool) list \<Rightarrow> bool" where
  "lengthsAgree sv css lg \<longleftrightarrow> length css = length (classCompute sv)"

text \<open>The population that an entry of the record of promotions adds to the in-class and to
  the non-class sum of the class at index \<open>k\<close>, for a histogram \<open>h\<close>. \<open>f64sum\<close> adds the
  numbers of a list to 0 in \<open>float64\<close>, one after the other in the order of the list;
  \<open>sumsMatch\<close> says that each running sum is this sum of the populations over the record.\<close>

definition f64sum :: "real list \<Rightarrow> real" where
  "f64sum xs = foldl f64add 0 xs"

definition popIn :: "Model \<Rightarrow> D2Solver \<Rightarrow> nat \<Rightarrow> nat \<times> nat \<times> bool \<Rightarrow> real" where
  "popIn h sv k e =
     (case e of (cx, i, b) \<Rightarrow>
        if cx = k \<and> b then Class h ! (classCompute sv ! k) ! i else 0)"

definition popNon :: "Model \<Rightarrow> D2Solver \<Rightarrow> nat \<Rightarrow> nat \<times> nat \<times> bool \<Rightarrow> real" where
  "popNon h sv k e =
     (case e of (cx, i, b) \<Rightarrow>
        if cx = k \<and> \<not> b then f64sub (SS h ! i) (Class h ! (classCompute sv ! k) ! i) else 0)"

definition sumsMatch :: "D2Solver \<Rightarrow> classStats list \<Rightarrow> (nat \<times> nat \<times> bool) list \<Rightarrow> bool" where
  "sumsMatch sv css lg \<longleftrightarrow>
     (\<forall>k<length css.
        sumAllInClass (css ! k) = f64sum (map (popIn (allM sv) sv k) lg)
        \<and> sumUnkInClass (css ! k) = f64sum (map (popIn (unkM sv) sv k) lg)
        \<and> sumAllNonClass (css ! k) = f64sum (map (popNon (allM sv) sv k) lg)
        \<and> sumUnkNonClass (css ! k) = f64sum (map (popNon (unkM sv) sv k) lg))"

text \<open>The three properties of the record of promotions, read off a workspace: the record has
  no entry twice, each entry is in the tracklet-scope tag set it names, and each running sum
  is the \<open>float64\<close> sum of the populations recorded for it.\<close>

definition promotionsOK :: "tracklet \<Rightarrow> bool" where
  "promotionsOK tk \<longleftrightarrow>
     length (cs tk) = length (classCompute (solver tk))
     \<and> distinct (promotions tk)
     \<and> (\<forall>(cx, i, b)\<in>set (promotions tk).
           cx < length (cs tk)
           \<and> lookup (if b then tagInClass (cs tk ! cx) else tagNonClass (cs tk ! cx)) i)
     \<and> (\<forall>k<length (cs tk).
           sumAllInClass (cs tk ! k)
             = f64sum (map (popIn (allM (solver tk)) (solver tk) k) (promotions tk))
           \<and> sumUnkInClass (cs tk ! k)
               = f64sum (map (popIn (unkM (solver tk)) (solver tk) k) (promotions tk))
           \<and> sumAllNonClass (cs tk ! k)
               = f64sum (map (popNon (allM (solver tk)) (solver tk) k) (promotions tk))
           \<and> sumUnkNonClass (cs tk ! k)
               = f64sum (map (popNon (unkM (solver tk)) (solver tk) k) (promotions tk)))"

text \<open>\<open>LastH\<close> is the last index of a non-empty \<open>HPart\<close>, as the model builder sets it.\<close>

definition binsOK :: "binModel \<Rightarrow> bool" where
  "binsOK m \<longleftrightarrow> HPart m \<noteq> [] \<and> LastH m = int (length (HPart m)) - 1"

definition quietFrame :: "tracklet \<Rightarrow> tracklet \<Rightarrow> bool" where
  "quietFrame tk tk' \<longleftrightarrow>
     sFrame tk tk' \<and> promotions tk' = promotions tk \<and> list_all2 dScopeEq (cs tk) (cs tk')"

text \<open>The measures of the search. \<open>freeIn N m\<close> counts the bins below \<open>N\<close> that the tag set
  \<open>m\<close> does not hold; \<open>dFree\<close> and \<open>tFree\<close> add these counts over the distance-scope and the
  tracklet-scope tag sets of all configured classes. \<open>span x\<close> is the width \<open>x\<close> in tenths,
  rounded up.\<close>

definition keysOn :: "tagMap \<Rightarrow> nat set" where
  "keysOn m = {k. lookup m k}"

definition freeIn :: "nat \<Rightarrow> tagMap \<Rightarrow> nat" where
  "freeIn N m = card ({..<N} - keysOn m)"

definition dFreeOf :: "nat \<Rightarrow> classStats \<Rightarrow> nat" where
  "dFreeOf N s = freeIn N (dInClass s) + freeIn N (dNonClass s)"

definition tFreeOf :: "nat \<Rightarrow> classStats \<Rightarrow> nat" where
  "tFreeOf N s = freeIn N (tagInClass s) + freeIn N (tagNonClass s)"

definition dFree :: "tracklet \<Rightarrow> nat" where
  "dFree tk = sum_list (map (dFreeOf (modelSize (bins (solver tk)))) (cs tk))"

definition tFree :: "tracklet \<Rightarrow> nat" where
  "tFree tk = sum_list (map (tFreeOf (modelSize (bins (solver tk)))) (cs tk))"

definition span :: "real \<Rightarrow> nat" where
  "span x = nat \<lceil>10 * x\<rceil>"

text \<open>A solver as \<open>New\<close> is meant to be given one: no partition is empty, \<open>LastH\<close> is the last
  index of \<open>HPart\<close>, every configured class is a class of \<open>CList\<close> with a row in both
  histograms, and the rows and \<open>SS\<close> have an entry for every bin of the model.\<close>

definition wfSolver :: "D2Solver \<Rightarrow> bool" where
  "wfSolver sv \<longleftrightarrow>
     QPart (bins sv) \<noteq> [] \<and> EPart (bins sv) \<noteq> [] \<and> IPart (bins sv) \<noteq> []
     \<and> binsOK (bins sv)
     \<and> (\<forall>c\<in>set (classCompute sv).
           c < length CList
           \<and> c < length (Class (allM sv)) \<and> c < length (Class (unkM sv))
           \<and> modelSize (bins sv) \<le> length (Class (allM sv) ! c)
           \<and> modelSize (bins sv) \<le> length (Class (unkM sv) ! c))
     \<and> modelSize (bins sv) \<le> length (SS (allM sv))
     \<and> modelSize (bins sv) \<le> length (SS (unkM sv))"

text \<open>A random source as the solver needs it: every number it returns is in \<open>[0, 1]\<close>. The
  bound 1 is included, since \<open>Float64\<close> of the repeatable source can return it.\<close>

definition wfRnd :: "(nat \<Rightarrow> real) \<Rightarrow> bool" where
  "wfRnd rn \<longleftrightarrow> (\<forall>n. 0 \<le> rn n \<and> rn n \<le> 1)"

text \<open>The invariant of the workspace during a solve, and what the angle search needs on top
  of it: a valid \<open>hmagBin\<close> and no bin outside the model in \<open>dTag\<close>.\<close>

definition wfBase :: "tracklet \<Rightarrow> bool" where
  "wfBase tk \<longleftrightarrow>
     wfSolver (solver tk) \<and> wfRnd (rnd tk)
     \<and> length (cs tk) = length (classCompute (solver tk))"

definition wfTags :: "tracklet \<Rightarrow> bool" where
  "wfTags tk \<longleftrightarrow>
     wfBase tk \<and> hmagBin tk < length (HPart (bins (solver tk)))
     \<and> (\<forall>p\<in>set (dTag tk). fst p < modelSize (bins (solver tk)))"

text \<open>A depth of recursion that is enough for \<open>aRange\<close>, and one that is enough for \<open>score\<close>,
  for a solver with \<open>C\<close> configured classes and \<open>N\<close> bins: a level of \<open>aRange\<close> either tags a
  new bin (at most \<open>2 C N\<close> times), or cuts more than a tenth off a width that
  \<open>solveAngleRange\<close> bounds by 24, or is the one aged level; likewise for \<open>dRange\<close> with
  promotions and the width \<open>max_distance - min_distance\<close>.\<close>

definition aFuel :: "D2Solver \<Rightarrow> nat" where
  "aFuel sv = (length (classCompute sv) * (2 * modelSize (bins sv)) + 240) * 2 + 2"

definition fuelBound :: "D2Solver \<Rightarrow> nat" where
  "fuelBound sv =
     aFuel sv + (length (classCompute sv) * (2 * modelSize (bins sv)) + 1000) * 2 + 2"

subsection \<open>Concrete inputs\<close>

definition wBins :: binModel where
  "wBins = \<lparr>QPart = [1, 2, 3], EPart = [0.5, 1.1], IPart = [10, 180], HPart = [6, 8, 10],
            MSize = 36, LastH = 2\<rparr>"

definition clipSolver :: D2Solver where
  "clipSolver = \<lparr>allM = \<lparr>SS = [], Class = []\<rparr>, unkM = \<lparr>SS = [], Class = []\<rparr>,
                  classCompute = [], obsErrMap = Map.empty, obsErrDefault = 1 / 100000,
                  bins = wBins\<rparr>"

definition wObs :: "real \<Rightarrow> real \<Rightarrow> real \<Rightarrow> VObs" where
  "wObs t ra dec = \<lparr>Meas = \<lparr>Mjd = t, Ra = ra, Dec = dec, Vmag = 21, Qual = ''291''\<rparr>,
                    EarthObserverVect = zeroCart\<rparr>"

definition wArc :: Arc where
  "wArc = \<lparr>Desig = ''NE00030'', Obs = [wObs 53264 1 0.5, wObs 53265 1 0.4]\<rparr>"

text \<open>A solver with two configured classes (NEO and Hun) and no observational error, an
  outcome of \<open>twoObs\<close> whose two observations carry the same time, and the fresh workspace for
  them. With no time between the observations the discriminant of \<open>solveAngleRange\<close> is not
  positive at any distance (in the Go code it is NaN), so the search tags no orbit.\<close>

definition wSolver :: D2Solver where
  "wSolver = \<lparr>allM = \<lparr>SS = replicate 36 2, Class = replicate 15 (replicate 36 1)\<rparr>,
               unkM = \<lparr>SS = replicate 36 1, Class = replicate 15 (replicate 36 (1 / 2))\<rparr>,
               classCompute = [1, 5], obsErrMap = Map.empty, obsErrDefault = 0,
               bins = wBins\<rparr>"

definition wOutcome :: twoObsOutcome where
  "wOutcome = \<lparr>toFirst = wObs 53264 1 0.5, toLast = wObs 53264 1.001 0.5,
                toFirstRms = 0, toLastRms = 0, toRms = 0\<rparr>"

definition wTracklet :: tracklet where
  "wTracklet = newTracklet wSolver wOutcome 21 (\<lambda>n. 0)"

text \<open>A tracklet of two observations one day apart, and the workspace for it with the
  repeatable random source. The solver \<open>wSolverH\<close> has the classes NEO and Hun configured and
  histograms with the populations 3 of 4 (all) and 1 of 2 (unk) in every bin and class.\<close>

definition wOutcome2 :: twoObsOutcome where
  "wOutcome2 = \<lparr>toFirst = wObs 53264 1 0.5, toLast = wObs 53265 1 0.4,
                 toFirstRms = 0, toLastRms = 0, toRms = 0\<rparr>"

definition wSolverH :: D2Solver where
  "wSolverH = \<lparr>allM = \<lparr>SS = replicate 36 4, Class = replicate 15 (replicate 36 3)\<rparr>,
                unkM = \<lparr>SS = replicate 36 2, Class = replicate 15 (replicate 36 1)\<rparr>,
                classCompute = [1, 5], obsErrMap = Map.empty, obsErrDefault = 0,
                bins = wBins\<rparr>"

definition wFresh :: tracklet where
  "wFresh = newTracklet wSolverH wOutcome2 21 lcgDraw"

text \<open>The workspace as an angle search leaves it that found, at one distance, an orbit in
  bin 3 that is a NEO and no Hun, and an orbit in bin 5 that is neither; then with these tags
  promoted; then as a search at another distance leaves it that found bin 3 again and bin 7,
  both NEO and no Hun; then with these tags promoted.\<close>

definition wTagged :: tracklet where
  "wTagged =
     wFresh\<lparr>cs := [newClassStats\<lparr>dInClass := [(3, True)], dNonClass := [(5, True)]\<rparr>,
                   newClassStats\<lparr>dNonClass := [(3, True), (5, True)]\<rparr>],
             dAnyTag := True, dTag := [(3, True), (5, True)]\<rparr>"

definition wPromoted :: tracklet where
  "wPromoted =
     wTagged\<lparr>cs := [\<lparr>tagInClass = [(3, True)], tagNonClass = [(5, True)],
                     sumAllInClass = 3, sumAllNonClass = 1,
                     sumUnkInClass = 1, sumUnkNonClass = 1,
                     dInClass = [(3, True)], dNonClass = [(5, True)]\<rparr>,
                    \<lparr>tagInClass = [], tagNonClass = [(3, True), (5, True)],
                     sumAllInClass = 0, sumAllNonClass = 2,
                     sumUnkInClass = 0, sumUnkNonClass = 2,
                     dInClass = [], dNonClass = [(3, True), (5, True)]\<rparr>],
              promotions := [(0, 3, True), (1, 3, False), (0, 5, False), (1, 5, False)]\<rparr>"

definition wRetagged :: tracklet where
  "wRetagged =
     wPromoted\<lparr>cs := [\<lparr>tagInClass = [(3, True)], tagNonClass = [(5, True)],
                       sumAllInClass = 3, sumAllNonClass = 1,
                       sumUnkInClass = 1, sumUnkNonClass = 1,
                       dInClass = [(3, True), (7, True)], dNonClass = []\<rparr>,
                      \<lparr>tagInClass = [], tagNonClass = [(3, True), (5, True)],
                       sumAllInClass = 0, sumAllNonClass = 2,
                       sumUnkInClass = 0, sumUnkNonClass = 2,
                       dInClass = [], dNonClass = [(3, True), (7, True)]\<rparr>],
                dTag := [(3, True), (7, True)]\<rparr>"

definition wPromoted2 :: tracklet where
  "wPromoted2 =
     wRetagged\<lparr>cs := [\<lparr>tagInClass = [(3, True), (7, True)], tagNonClass = [(5, True)],
                       sumAllInClass = 6, sumAllNonClass = 1,
                       sumUnkInClass = 2, sumUnkNonClass = 1,
                       dInClass = [(3, True), (7, True)], dNonClass = []\<rparr>,
                      \<lparr>tagInClass = [], tagNonClass = [(3, True), (5, True), (7, True)],
                       sumAllInClass = 0, sumAllNonClass = 3,
                       sumUnkInClass = 0, sumUnkNonClass = 3,
                       dInClass = [], dNonClass = [(3, True), (7, True)]\<rparr>],
                promotions := [(0, 3, True), (1, 3, False), (0, 5, False), (1, 5, False),
                               (0, 7, True), (1, 7, False)]\<rparr>"

text \<open>A solver with the class NEO configured and histograms in which every bin holds the
  population \<open>hotPop\<close>, the \<open>float64\<close> nearest to 0.69, all of it in the class; the workspace
  with bin 3 tagged in class at distance scope, and with this tag promoted.\<close>

definition hotPop :: real where
  "hotPop = 1553741871442821 / 2251799813685248"

definition hotSolver :: D2Solver where
  "hotSolver = \<lparr>allM = \<lparr>SS = replicate 36 hotPop, Class = replicate 15 (replicate 36 hotPop)\<rparr>,
                 unkM = \<lparr>SS = replicate 36 hotPop, Class = replicate 15 (replicate 36 hotPop)\<rparr>,
                 classCompute = [1], obsErrMap = Map.empty, obsErrDefault = 0,
                 bins = wBins\<rparr>"

definition hotTagged :: tracklet where
  "hotTagged =
     (newTracklet hotSolver wOutcome2 21 lcgDraw)
       \<lparr>cs := [newClassStats\<lparr>dInClass := [(3, True)]\<rparr>],
        dAnyTag := True, dTag := [(3, True)]\<rparr>"

definition hotPromoted :: tracklet where
  "hotPromoted =
     hotTagged\<lparr>cs := [\<lparr>tagInClass = [(3, True)], tagNonClass = [],
                       sumAllInClass = hotPop, sumAllNonClass = 0,
                       sumUnkInClass = hotPop, sumUnkNonClass = 0,
                       dInClass = [(3, True)], dNonClass = []\<rparr>],
                promotions := [(0, 3, True)]\<rparr>"

section \<open>Properties\<close>

subsection \<open>Rounding to float64\<close>

lemma two_powi_pos [simp]: "0 < (2::real) powi k"
  by (simp add: power_int_def)

lemma two_powr_powi: "(2::real) powr (of_int k) = 2 powi k"
  by (simp add: powr_real_of_int power_int_def power_one_over inverse_eq_divide)

lemma expo_eqI:
  assumes "2 powi k \<le> \<bar>x\<bar>" "\<bar>x\<bar> < 2 powi (k + 1)"
  shows "expo x = k"
proof -
  have pos: "0 < \<bar>x\<bar>" using assms(1) two_powi_pos [of k] by linarith
  have "\<lfloor>log 2 \<bar>x\<bar>\<rfloor> = k \<longleftrightarrow> 2 powr (of_int k) \<le> \<bar>x\<bar> \<and> \<bar>x\<bar> < 2 powr (of_int (k + 1))"
    using floor_log_eq_powr_iff [of "\<bar>x\<bar>" 2 k] pos by simp
  with assms show ?thesis unfolding expo_def two_powr_powi by simp
qed

lemma expo_bounds:
  assumes "x \<noteq> 0"
  shows "2 powi (expo x) \<le> \<bar>x\<bar>" "\<bar>x\<bar> < 2 powi (expo x + 1)"
proof -
  have pos: "0 < \<bar>x\<bar>" using assms by simp
  have "2 powr (of_int (expo x)) \<le> \<bar>x\<bar> \<and> \<bar>x\<bar> < 2 powr (of_int (expo x + 1))"
    using floor_log_eq_powr_iff [of "\<bar>x\<bar>" 2 "expo x"] pos by (simp add: expo_def)
  then show "2 powi (expo x) \<le> \<bar>x\<bar>" "\<bar>x\<bar> < 2 powi (expo x + 1)"
    unfolding two_powr_powi by simp_all
qed

lemma roundEven_err: "\<bar>of_int (roundEven x) - x\<bar> \<le> 1 / 2"
  unfolding roundEven_def Let_def by (auto simp: abs_le_iff)

lemma roundEven_of_int [simp]: "roundEven (of_int z) = z"
  by (simp add: roundEven_def)

lemma fl64_at:
  assumes "2 powi k \<le> \<bar>x\<bar>" "\<bar>x\<bar> < 2 powi (k + 1)"
  shows "fl64 x = of_int (roundEven (x * 2 powi (52 - k))) * 2 powi (k - 52)"
proof -
  have "0 < \<bar>x\<bar>" using assms(1) two_powi_pos [of k] by linarith
  then have "x \<noteq> 0" by simp
  with expo_eqI [OF assms] show ?thesis by (simp add: fl64_def)
qed

lemma u64_bounds: "0 < u64" "u64 < 1"
  by (simp_all add: u64_def)

lemma fl64_0 [simp]: "fl64 0 = 0"
  by (simp add: fl64_def)

lemma powi_cancel: "(2::real) powi (a - b) * 2 powi (b - a) = 1"
proof -
  have "(2::real) powi (a - b) * 2 powi (b - a) = 2 powi ((a - b) + (b - a))"
    by (rule power_int_add [symmetric]) simp
  then show ?thesis by simp
qed

lemma fl64_err: "\<bar>fl64 x - x\<bar> \<le> \<bar>x\<bar> * u64"
proof (cases "x = 0")
  case True
  then show ?thesis by simp
next
  case False
  let ?e = "expo x"
  let ?m = "x * 2 powi (52 - ?e)"
  let ?s = "(2::real) powi (?e - 52)"
  have x: "x = ?m * ?s"
    using powi_cancel [of 52 ?e] by (simp add: mult.assoc)
  have "fl64 x - x = of_int (roundEven ?m) * ?s - ?m * ?s"
    using False x by (simp add: fl64_def)
  also have "\<dots> = (of_int (roundEven ?m) - ?m) * ?s"
    by (simp only: left_diff_distrib)
  finally have "\<bar>fl64 x - x\<bar> = \<bar>of_int (roundEven ?m) - ?m\<bar> * ?s"
    by (simp add: abs_mult)
  also have "\<dots> \<le> 1 / 2 * ?s"
    by (intro mult_right_mono roundEven_err) simp
  also have "1 / 2 * ?s = 2 powi ?e * u64"
  proof -
    have "(2::real) powi (?e - 52) = 2 powi (?e + (- 52))" by simp
    also have "\<dots> = 2 powi ?e * 2 powi (- 52)" by (rule power_int_add) simp
    finally show ?thesis by (simp add: u64_def)
  qed
  also have "\<dots> \<le> \<bar>x\<bar> * u64"
    using expo_bounds(1) [OF False] u64_bounds(1) by (intro mult_right_mono) simp_all
  finally show ?thesis .
qed

lemma fl64_lower: "0 \<le> x \<Longrightarrow> x * (1 - u64) \<le> fl64 x"
  using fl64_err [of x] by (simp add: abs_le_iff algebra_simps)

lemma fl64_upper: "0 \<le> x \<Longrightarrow> fl64 x \<le> x * (1 + u64)"
  using fl64_err [of x] by (simp add: abs_le_iff algebra_simps)

lemma fl64_nonneg: "0 \<le> x \<Longrightarrow> 0 \<le> fl64 x"
proof -
  assume x: "0 \<le> x"
  have "0 \<le> x * (1 - u64)" using x u64_bounds by (intro mult_nonneg_nonneg) simp_all
  with fl64_lower [OF x] show ?thesis by linarith
qed

lemma fl64_pos: "0 < x \<Longrightarrow> 0 < fl64 x"
proof -
  assume x: "0 < x"
  have "0 < x * (1 - u64)" using x u64_bounds by (intro mult_pos_pos) simp_all
  with fl64_lower [of x] x show ?thesis by linarith
qed

lemma fl64_pos_iff: "0 < fl64 x \<longleftrightarrow> 0 < x"
proof
  assume p: "0 < fl64 x"
  show "0 < x"
  proof (rule ccontr)
    assume n: "\<not> 0 < x"
    then have a: "\<bar>x\<bar> = - x" by simp
    from fl64_err [of x] have "fl64 x \<le> x + \<bar>x\<bar> * u64" by (simp add: abs_le_iff)
    also have "\<dots> = x * (1 - u64)" unfolding a by (simp add: algebra_simps)
    also have "\<dots> \<le> 0" using n u64_bounds by (simp add: mult_le_0_iff)
    finally show False using p by simp
  qed
qed (rule fl64_pos)

lemma expo_scale:
  assumes "x \<noteq> 0"
  shows "expo (x * 2 powi k) = expo x + k"
proof (rule expo_eqI)
  have a: "\<bar>x * 2 powi k\<bar> = \<bar>x\<bar> * 2 powi k" by (simp add: abs_mult)
  have p1: "(2::real) powi (expo x + k) = 2 powi (expo x) * 2 powi k"
    by (rule power_int_add) simp
  have p2: "(2::real) powi (expo x + k + 1) = 2 powi (expo x + 1) * 2 powi k"
  proof -
    have "expo x + k + 1 = (expo x + 1) + k" by simp
    then show ?thesis by (simp only: power_int_add [of 2, OF disjI1, simplified])
  qed
  show "2 powi (expo x + k) \<le> \<bar>x * 2 powi k\<bar>"
    unfolding a p1 using expo_bounds(1) [OF assms] by (intro mult_right_mono) simp_all
  show "\<bar>x * 2 powi k\<bar> < 2 powi (expo x + k + 1)"
    unfolding a p2 using expo_bounds(2) [OF assms] by (intro mult_strict_right_mono) simp_all
qed

lemma fl64_scale: "fl64 (x * 2 powi k) = fl64 x * 2 powi k"
proof (cases "x = 0")
  case True
  then show ?thesis by simp
next
  case False
  have e: "expo (x * 2 powi k) = expo x + k" by (rule expo_scale [OF False])
  have n0: "x * 2 powi k \<noteq> 0" using False by simp
  have "(2::real) powi k * 2 powi (52 - (expo x + k)) = 2 powi (k + (52 - (expo x + k)))"
    by (rule power_int_add [symmetric]) simp
  then have m: "x * 2 powi k * 2 powi (52 - (expo x + k)) = x * 2 powi (52 - expo x)"
    by (simp add: mult.assoc)
  have eq: "expo x + k - 52 = (expo x - 52) + k" by simp
  have s: "(2::real) powi (expo x + k - 52) = 2 powi (expo x - 52) * 2 powi k"
    by (subst eq) (rule power_int_add, simp)
  have "fl64 (x * 2 powi k)
      = of_int (roundEven (x * 2 powi k * 2 powi (52 - (expo x + k)))) * 2 powi (expo x + k - 52)"
    using n0 by (simp only: fl64_def e if_False)
  also have "\<dots> = of_int (roundEven (x * 2 powi (52 - expo x))) * (2 powi (expo x - 52) * 2 powi k)"
    by (simp only: m s)
  also have "\<dots> = fl64 x * 2 powi k"
    using False by (simp only: fl64_def if_False mult.assoc)
  finally show ?thesis .
qed

lemma fl64_int:
  assumes "\<bar>z\<bar> < 2 ^ 53"
  shows "fl64 (of_int z) = of_int z"
proof (cases "z = 0")
  case True
  then show ?thesis by simp
next
  case False
  let ?x = "of_int z :: real"
  let ?e = "expo ?x"
  have nz: "?x \<noteq> 0" using False by simp
  have "of_int \<bar>z\<bar> < (of_int (2 ^ 53) :: real)" using assms by (simp only: of_int_less_iff)
  then have lt: "\<bar>?x\<bar> < 2 powi 53" by simp
  from expo_bounds(1) [OF nz] lt have "(2::real) powi ?e < 2 powi 53" by (rule le_less_trans)
  then have "?e < 53" by (rule power_int_le_imp_less_exp [rotated]) simp_all
  then have le: "0 \<le> 52 - ?e" by simp
  have "?x * 2 powi (52 - ?e) = of_int (z * 2 ^ nat (52 - ?e))"
    using le by (simp add: power_int_nonneg_exp)
  then have r: "roundEven (?x * 2 powi (52 - ?e)) = z * 2 ^ nat (52 - ?e)"
    by (simp only: roundEven_of_int)
  have "fl64 ?x = of_int (z * 2 ^ nat (52 - ?e)) * 2 powi (?e - 52)"
    using nz by (simp only: fl64_def r if_False)
  also have "\<dots> = ?x * (2 powi (52 - ?e) * 2 powi (?e - 52))"
    using le by (simp add: power_int_nonneg_exp)
  also have "\<dots> = ?x" by (simp only: powi_cancel mult_1_right)
  finally show ?thesis .
qed

lemma fl64_top_state: "fl64 (576460752303423487) = 576460752303423488"
proof -
  have "fl64 576460752303423487
      = of_int (roundEven (576460752303423487 * 2 powi (52 - 58))) * 2 powi (58 - 52)"
    by (rule fl64_at) simp_all
  also have "\<dots> = 576460752303423488"
    by (simp add: roundEven_def Let_def)
  finally show ?thesis .
qed

lemma fl64_hot_product: "fl64 (100 * (1553741871442821 / 2251799813685248)) = 4855443348258816 / 2 ^ 46"
proof -
  have "fl64 (100 * (1553741871442821 / 2251799813685248))
      = of_int (roundEven (100 * (1553741871442821 / 2251799813685248) * 2 powi (52 - 6)))
          * 2 powi (6 - 52)"
    by (rule fl64_at) simp_all
  also have "\<dots> = 4855443348258816 / 2 ^ 46"
    by (simp add: roundEven_def Let_def)
  finally show ?thesis .
qed


lemma roundEven_le: "x \<le> of_int K \<Longrightarrow> roundEven x \<le> K"
  unfolding roundEven_def Let_def by (auto simp: floor_le_iff)

lemma roundEven_ge: "of_int K \<le> x \<Longrightarrow> K \<le> roundEven x"
  unfolding roundEven_def Let_def by (auto simp: le_floor_iff) linarith+

lemma roundEven_less: "x < of_int K - 1 / 2 \<Longrightarrow> roundEven x < K"
  unfolding roundEven_def Let_def by (auto simp: floor_less_iff)

lemma roundEven_up: "of_int K - 1 / 2 < x \<Longrightarrow> x \<le> of_int K \<Longrightarrow> roundEven x = K"
proof -
  assume a: "of_int K - 1 / 2 < x" "x \<le> of_int K"
  show ?thesis
  proof (cases "x = of_int K")
    case True
    then show ?thesis by simp
  next
    case False
    with a have f: "\<lfloor>x\<rfloor> = K - 1" by (simp add: floor_eq_iff)
    with a show ?thesis by (simp add: roundEven_def Let_def)
  qed
qed

lemma fl64_one [simp]: "fl64 1 = 1"
  using fl64_int [of 1] by simp

lemma fl64_powi [simp]: "fl64 (2 powi k) = 2 powi k"
  using fl64_scale [of 1 k] by simp

lemma fl64_le_powi:
  assumes "0 \<le> x" "x \<le> 2 powi k"
  shows "fl64 x \<le> 2 powi k"
proof (cases "x = 0 \<or> x = 2 powi k")
  case True
  then show ?thesis by auto
next
  case False
  then have nz: "x \<noteq> 0" and lt: "x < 2 powi k" using assms by simp_all
  let ?e = "expo x"
  have ax: "\<bar>x\<bar> = x" using assms by simp
  from expo_bounds [OF nz] ax have b: "2 powi ?e \<le> x" "x < 2 powi (?e + 1)" by simp_all
  from b(1) lt have ll: "(2::real) powi ?e < 2 powi k" by (rule le_less_trans)
  have "?e < k"
  proof (rule ccontr)
    assume "\<not> ?e < k"
    then have "k \<le> ?e" by simp
    then have "(2::real) powi k \<le> 2 powi ?e" by (intro power_int_increasing) simp_all
    with ll show False by simp
  qed
  then have ek: "?e + 1 \<le> k" by simp
  have p: "(2::real) powi (?e + 1) * 2 powi (52 - ?e) = 2 powi ((?e + 1) + (52 - ?e))"
    by (rule power_int_add [symmetric]) simp
  have "x * 2 powi (52 - ?e) \<le> 2 powi (?e + 1) * 2 powi (52 - ?e)"
    using b(2) by (intro mult_right_mono) simp_all
  also have "\<dots> = of_int (2 ^ 53)" unfolding p by simp
  finally have "roundEven (x * 2 powi (52 - ?e)) \<le> 2 ^ 53" by (rule roundEven_le)
  then have "(of_int (roundEven (x * 2 powi (52 - ?e))) :: real) \<le> of_int (2 ^ 53)"
    by (simp only: of_int_le_iff)
  then have "fl64 x \<le> of_int (2 ^ 53) * 2 powi (?e - 52)"
    using nz by (simp only: fl64_def if_False) (intro mult_right_mono, simp_all)
  also have "\<dots> = 2 powi 53 * 2 powi (?e - 52)" by simp
  also have "\<dots> = 2 powi (53 + (?e - 52))" by (rule power_int_add [symmetric]) simp
  also have "\<dots> = 2 powi (?e + 1)" by (simp add: algebra_simps)
  also have "\<dots> \<le> 2 powi k" using ek by (intro power_int_increasing) simp_all
  finally show ?thesis .
qed

lemma roundEven_abs_le:
  assumes "\<bar>x\<bar> \<le> of_int K"
  shows "\<bar>roundEven x\<bar> \<le> K"
proof -
  from assms have "x \<le> of_int K" "of_int (- K) \<le> x" by (simp_all add: abs_le_iff)
  from roundEven_le [OF this(1)] roundEven_ge [OF this(2)] show ?thesis by simp
qed

lemma fl64_int_le:
  assumes "\<bar>z\<bar> \<le> 2 ^ 53"
  shows "fl64 (of_int z) = of_int z"
proof (cases "\<bar>z\<bar> < 2 ^ 53")
  case True
  then show ?thesis by (rule fl64_int)
next
  case False
  with assms have "z = 2 ^ 53 \<or> z = - (2 ^ 53)" by (simp add: abs_if split: if_splits)
  then show ?thesis
  proof
    assume "z = 2 ^ 53"
    then have "(of_int z :: real) = 2 powi 53" by simp
    then show ?thesis by (simp only: fl64_powi)
  next
    assume "z = - (2 ^ 53)"
    then have e: "(of_int z :: real) = of_int (- 1) * 2 powi 53" by simp
    have "fl64 (of_int (- 1) * 2 powi 53) = fl64 (of_int (- 1)) * 2 powi 53"
      by (rule fl64_scale)
    also have "fl64 (of_int (- 1)) = of_int (- 1)" by (rule fl64_int) simp
    finally show ?thesis unfolding e .
  qed
qed

lemma fl64_idem [simp]: "fl64 (fl64 x) = fl64 x"
proof (cases "x = 0")
  case True
  then show ?thesis by simp
next
  case False
  let ?e = "expo x"
  let ?m = "x * 2 powi (52 - ?e)"
  let ?R = "roundEven ?m"
  have p: "(2::real) powi (?e + 1) * 2 powi (52 - ?e) = 2 powi ((?e + 1) + (52 - ?e))"
    by (rule power_int_add [symmetric]) simp
  have "\<bar>?m\<bar> = \<bar>x\<bar> * 2 powi (52 - ?e)" by (simp add: abs_mult)
  also have "\<dots> \<le> 2 powi (?e + 1) * 2 powi (52 - ?e)"
    using expo_bounds(2) [OF False] by (intro mult_right_mono) simp_all
  also have "\<dots> = of_int (2 ^ 53)" unfolding p by simp
  finally have "\<bar>?R\<bar> \<le> 2 ^ 53" by (rule roundEven_abs_le)
  then have r: "fl64 (of_int ?R) = of_int ?R" by (rule fl64_int_le)
  have f: "fl64 x = of_int ?R * 2 powi (?e - 52)" using False by (simp only: fl64_def if_False)
  show ?thesis unfolding f fl64_scale r ..
qed

lemma u_up: "(1 + u64) * (1 + u64) / (1 - u64) \<le> 1 + 4 * u64"
proof -
  have u: "0 < u64" "u64 \<le> 1 / 5" by (simp_all add: u64_def)
  have "0 \<le> u64 * (1 - 5 * u64)" using u by (intro mult_nonneg_nonneg) simp_all
  moreover have "(1 + 4 * u64) * (1 - u64) = (1 + u64) * (1 + u64) + u64 * (1 - 5 * u64)"
    by (simp add: algebra_simps)
  ultimately have "(1 + u64) * (1 + u64) \<le> (1 + 4 * u64) * (1 - u64)" by linarith
  then show ?thesis using u by (simp add: pos_divide_le_eq)
qed

lemma u_lo: "1 - 4 * u64 \<le> (1 - u64) * (1 - u64) / (1 + u64)"
proof -
  have u: "0 < u64" by (simp add: u64_def)
  have "0 \<le> u64 * u64 + u64 * (1 + 4 * u64)" using u by (intro add_nonneg_nonneg mult_nonneg_nonneg) simp_all
  moreover have "(1 - u64) * (1 - u64) = (1 - 4 * u64) * (1 + u64) + (u64 * u64 + u64 * (1 + 4 * u64))"
    by (simp add: algebra_simps)
  ultimately have "(1 - 4 * u64) * (1 + u64) \<le> (1 - u64) * (1 - u64)" by linarith
  then show ?thesis using u by (simp add: pos_le_divide_eq)
qed

lemma f64_quotient:
  assumes a: "0 \<le> a" and b: "0 \<le> b" and s: "0 < a + b"
  shows "100 * a / (a + b) * (1 - 4 * u64) \<le> f64div (f64mul 100 a) (f64add a b)"
    and "f64div (f64mul 100 a) (f64add a b) \<le> 100 * a / (a + b) * (1 + 4 * u64)"
proof -
  let ?N = "fl64 (100 * a)" and ?D = "fl64 (a + b)"
  let ?q = "100 * a / (a + b)"
  have u: "0 < u64" "u64 < 1" by (rule u64_bounds)+
  have a100: "0 \<le> 100 * a" using a by simp
  have q0: "0 \<le> ?q" using a s by simp
  have N0: "0 \<le> ?N" by (rule fl64_nonneg [OF a100])
  have Nu: "?N \<le> 100 * a * (1 + u64)" by (rule fl64_upper [OF a100])
  have Nl: "100 * a * (1 - u64) \<le> ?N" by (rule fl64_lower [OF a100])
  have Dl: "(a + b) * (1 - u64) \<le> ?D" using s by (intro fl64_lower) simp
  have Du: "?D \<le> (a + b) * (1 + u64)" using s by (intro fl64_upper) simp
  have Dp: "0 < ?D" by (rule fl64_pos [OF s])
  have Dlp: "0 < (a + b) * (1 - u64)" using s u by (intro mult_pos_pos) simp_all
  have Q0: "0 \<le> ?N / ?D" using N0 Dp by simp
  have Nu0: "0 \<le> 100 * a * (1 + u64)" using a100 u by (intro mult_nonneg_nonneg) simp_all
  have "?N / ?D \<le> (100 * a * (1 + u64)) / ((a + b) * (1 - u64))"
    using Nu0 Nu Dlp Dl by (rule frac_le)
  also have "\<dots> = ?q * ((1 + u64) / (1 - u64))" by simp
  finally have Qu: "?N / ?D \<le> ?q * ((1 + u64) / (1 - u64))" .
  have "fl64 (?N / ?D) \<le> ?N / ?D * (1 + u64)" by (rule fl64_upper [OF Q0])
  also have "\<dots> \<le> ?q * ((1 + u64) / (1 - u64)) * (1 + u64)"
    using Qu u by (intro mult_right_mono) simp_all
  also have "\<dots> = ?q * ((1 + u64) * (1 + u64) / (1 - u64))" by simp
  also have "\<dots> \<le> ?q * (1 + 4 * u64)" using q0 u_up by (rule mult_left_mono [rotated])
  finally show "f64div (f64mul 100 a) (f64add a b) \<le> ?q * (1 + 4 * u64)"
    by (simp add: f64div_def f64mul_def f64add_def)
  have Dup: "0 < (a + b) * (1 + u64)" using s u by (intro mult_pos_pos) simp_all
  have Nl0: "0 \<le> 100 * a * (1 - u64)" using a100 u by (intro mult_nonneg_nonneg) simp_all
  have "?q * ((1 - u64) / (1 + u64)) = (100 * a * (1 - u64)) / ((a + b) * (1 + u64))"
    by simp
  also have "\<dots> \<le> ?N / ?D"
    using N0 Nl Dp Du by (rule frac_le)
  finally have Ql: "?q * ((1 - u64) / (1 + u64)) \<le> ?N / ?D" .
  have "?q * (1 - 4 * u64) \<le> ?q * ((1 - u64) * (1 - u64) / (1 + u64))"
    using q0 u_lo by (rule mult_left_mono [rotated])
  also have "\<dots> = ?q * ((1 - u64) / (1 + u64)) * (1 - u64)" by simp
  also have "\<dots> \<le> ?N / ?D * (1 - u64)" using Ql u by (intro mult_right_mono) simp_all
  also have "\<dots> \<le> fl64 (?N / ?D)" by (rule fl64_lower [OF Q0])
  finally show "?q * (1 - 4 * u64) \<le> f64div (f64mul 100 a) (f64add a b)"
    by (simp add: f64div_def f64mul_def f64add_def)
qed

lemma fl64_nat_exact: "n < 2 ^ 53 \<Longrightarrow> fl64 (real n) = real n"
  using fl64_int [of "int n"] by simp

lemma fl64_nat_le:
  assumes "n < 2 ^ 59"
  shows "fl64 (real n) \<le> 2 ^ 59"
proof -
  have "real n \<le> 2 powi 59" using assms by simp
  from fl64_le_powi [OF _ this] show ?thesis by simp
qed

lemma fl64_bin58:
  assumes "2 ^ 58 \<le> n" "n < 2 ^ 59"
  shows "fl64 (real n) = of_int (roundEven (real n / 64)) * 64"
proof -
  have l: "2 powi 58 \<le> \<bar>real n\<bar>" using assms(1) by simp
  have u: "\<bar>real n\<bar> < 2 powi (58 + 1)" using assms(2) by simp
  from fl64_at [OF l u] show ?thesis by simp
qed

lemma fl64_nat_less:
  assumes "n < 2 ^ 59 - 32"
  shows "fl64 (real n) < 2 ^ 59"
proof (cases "n < 2 ^ 58")
  case True
  then have "real n \<le> 2 powi 58" by simp
  from fl64_le_powi [OF _ this] have "fl64 (real n) \<le> 2 ^ 58" by simp
  then show ?thesis by simp
next
  case False
  then have b: "2 ^ 58 \<le> n" "n < 2 ^ 59" using assms by simp_all
  have "real n < 576460752303423456" using assms by simp
  then have "real n / 64 < of_int (2 ^ 53) - 1 / 2" by simp
  then have "roundEven (real n / 64) < 2 ^ 53" by (rule roundEven_less)
  then have "roundEven (real n / 64) \<le> 2 ^ 53 - 1" by simp
  then have "(of_int (roundEven (real n / 64)) :: real) \<le> of_int (2 ^ 53 - 1)"
    by (simp only: of_int_le_iff)
  then have "fl64 (real n) \<le> of_int (2 ^ 53 - 1) * 64"
    unfolding fl64_bin58 [OF b] by (intro mult_right_mono) simp_all
  then show ?thesis by simp
qed

lemma fl64_nat_top:
  assumes "2 ^ 59 - 32 \<le> n" "n < 2 ^ 59"
  shows "fl64 (real n) = 2 ^ 59"
proof -
  have b: "2 ^ 58 \<le> n" "n < 2 ^ 59" using assms by simp_all
  have r: "roundEven (real n / 64) = 2 ^ 53"
  proof (cases "n = 2 ^ 59 - 32")
    case True
    then show ?thesis by (simp add: roundEven_def Let_def)
  next
    case False
    with assms have "576460752303423456 < n" by simp
    then have "576460752303423456 < real n" by simp
    then have l: "of_int (2 ^ 53) - 1 / 2 < real n / 64" by simp
    have "real n < 576460752303423488" using assms(2) by simp
    then have "real n / 64 \<le> of_int (2 ^ 53)" by simp
    from roundEven_up [OF l this] show ?thesis .
  qed
  show ?thesis unfolding fl64_bin58 [OF b] r by simp
qed

lemma fl64_hot_sum: "fl64 (1553741871442821 / 2251799813685248) = 1553741871442821 / 2251799813685248"
proof -
  have "fl64 (1553741871442821 / 2251799813685248)
      = of_int (roundEven (1553741871442821 / 2251799813685248 * 2 powi (52 - (- 1))))
          * 2 powi (- 1 - 52)"
    by (rule fl64_at) simp_all
  also have "\<dots> = 1553741871442821 / 2251799813685248"
    by (simp add: roundEven_def Let_def)
  finally show ?thesis .
qed

lemma fl64_hot_quotient:
  "fl64 (4855443348258816 / 2 ^ 46 / (1553741871442821 / 2251799813685248)) = 100 + 1 / 2 ^ 46"
proof -
  have "fl64 (4855443348258816 / 2 ^ 46 / (1553741871442821 / 2251799813685248))
      = of_int (roundEven (4855443348258816 / 2 ^ 46 / (1553741871442821 / 2251799813685248)
                  * 2 powi (52 - 6))) * 2 powi (6 - 52)"
    by (rule fl64_at) simp_all
  also have "\<dots> = 100 + 1 / 2 ^ 46"
    by (simp add: roundEven_def Let_def)
  finally show ?thesis .
qed

text \<open>Sums in \<open>float64\<close>.\<close>

lemma f64add_nonneg: "0 \<le> a \<Longrightarrow> 0 \<le> b \<Longrightarrow> 0 \<le> f64add a b"
  unfolding f64add_def by (rule fl64_nonneg) simp

lemma f64sub_nonneg: "b \<le> a \<Longrightarrow> 0 \<le> f64sub a b"
  unfolding f64sub_def by (rule fl64_nonneg) simp

lemma f64sum_Nil [simp]: "f64sum [] = 0"
  by (simp add: f64sum_def)

lemma f64sum_snoc [simp]: "f64sum (xs @ [x]) = f64add (f64sum xs) x"
  by (simp add: f64sum_def)

lemma f64sum_fix [simp]: "fl64 (f64sum xs) = f64sum xs"
  by (induction xs rule: rev_induct) (simp_all add: f64add_def)

lemma f64add_zero [simp]: "f64add (f64sum xs) 0 = f64sum xs"
  by (simp add: f64add_def)

lemma f64add_add_zero [simp]: "f64add (f64add a b) 0 = f64add a b"
  by (simp add: f64add_def)

lemma f64sum_snoc2 [simp]: "f64sum (xs @ [x, y]) = f64add (f64add (f64sum xs) x) y"
  by (simp add: f64sum_def)

subsection \<open>The repeatable random source\<close>

lemma lcga_num: "lcga = 302875106592253"
  by (simp add: lcga_def)

lemma lcga_val: "unat lcga = 302875106592253"
  by (simp add: lcga_num)

lemma lcgm_mask: "lcgm = mask 59"
  by (simp add: lcgm_def mask_eq_exp_minus_1)

lemma fl64_inv_2p59: "fl64 (1 / 2 ^ 59) = 1 / 2 ^ 59"
proof -
  have "(1 / 2 ^ 59 :: real) = 2 powi (- 59)" by (simp add: power_int_minus_divide)
  then show ?thesis by (simp only: fl64_powi)
qed

lemma fl64_2p59: "fl64 (2 ^ 59) = 2 ^ 59"
  using fl64_powi [of 59] by simp

lemma invLcgm_val: "invLcgm = 1 / 2 ^ 59"
proof -
  have "real (unat (push_bit 59 (1 :: lcgRand))) = 2 ^ 59" by simp
  then show ?thesis by (simp only: invLcgm_def f64div_def fl64_2p59 fl64_inv_2p59)
qed

lemma lcg_and_take_bit: "unat ((r * lcga) AND lcgm) = unat (take_bit 59 (r * lcga))"
  by (simp only: lcgm_mask take_bit_eq_mask)

lemma lcg_take_bit_mod: "unat (take_bit 59 (r * lcga)) = unat (r * lcga) mod 2 ^ 59"
  by (simp only: unsigned_take_bit_eq) (simp only: take_bit_eq_mod)

lemma lcg_mult_wrap: "unat (r * lcga) = (unat r * unat lcga) mod 2 ^ 64"
  by (simp only: unat_word_ariths) simp

lemma mod_64_59: "((x::nat) mod 2 ^ 64) mod 2 ^ 59 = x mod 2 ^ 59"
  by (rule mod_mod_cancel) (rule le_imp_power_dvd, simp)

lemma lcg_step_unat:
  "unat ((r * lcga) AND lcgm) = (unat r * 302875106592253) mod 2 ^ 59"
  by (simp only: lcg_and_take_bit lcg_take_bit_mod lcg_mult_wrap mod_64_59 lcga_val)

lemma lcg_step_less: "unat ((r * lcga) AND lcgm) < 2 ^ 59"
  by (simp only: lcg_step_unat) (rule mod_less_divisor, simp)

lemma fl64_nat_near:
  "\<bar>fl64 (real n) / 2 ^ 59 - real n / 2 ^ 59\<bar> \<le> real n / 2 ^ 59 * u64"
proof -
  have "fl64 (real n) / 2 ^ 59 - real n / 2 ^ 59 = (fl64 (real n) - real n) / 2 ^ 59"
    by (rule diff_divide_distrib [symmetric])
  then have "\<bar>fl64 (real n) / 2 ^ 59 - real n / 2 ^ 59\<bar> = \<bar>fl64 (real n) - real n\<bar> / 2 ^ 59"
    by (simp only: abs_divide) simp
  also have "\<dots> \<le> (\<bar>real n\<bar> * u64) / 2 ^ 59"
    by (intro divide_right_mono fl64_err) simp
  also have "\<dots> = real n / 2 ^ 59 * u64" by simp
  finally show ?thesis .
qed

lemma Float64_snd: "snd (Float64 r) = (r * lcga) AND lcgm"
  by (simp add: Float64_def Let_def)

lemma Float64_fst: "fst (Float64 r) = fl64 (real (unat (snd (Float64 r)))) / 2 ^ 59"
proof -
  let ?y = "fl64 (real (unat ((r * lcga) AND lcgm)))"
  have p: "(1 / 2 ^ 59 :: real) = 2 powi (- 59)" by (simp add: power_int_minus_divide)
  have "fst (Float64 r) = fl64 (?y * (1 / 2 ^ 59))"
    by (simp add: Float64_def Let_def f64mul_def invLcgm_val)
  also have "\<dots> = fl64 ?y * (1 / 2 ^ 59)" unfolding p by (rule fl64_scale)
  also have "\<dots> = ?y / 2 ^ 59" by simp
  finally show ?thesis by (simp only: Float64_snd)
qed

lemma Float64_range: "0 \<le> fst (Float64 r) \<and> fst (Float64 r) \<le> 1"
proof -
  let ?n = "unat (snd (Float64 r))"
  have n: "?n < 2 ^ 59" unfolding Float64_snd by (rule lcg_step_less)
  have "0 \<le> fl64 (real ?n)" by (rule fl64_nonneg, rule of_nat_0_le_iff)
  moreover have "fl64 (real ?n) \<le> 2 ^ 59" by (rule fl64_nat_le [OF n])
  ultimately show ?thesis unfolding Float64_fst by simp
qed

lemma lcgDraw_wf: "wfRnd lcgDraw"
  using Float64_range by (simp add: wfRnd_def lcgDraw_def)

text \<open>
  Claim C8, as stated: \<open>Float64\<close> returns a number in \<open>[0, 1)\<close>. From the state
  479971974079168683 the new state is \<open>2^59 - 1\<close>, whose conversion to \<open>float64\<close> rounds to
  \<open>2^59\<close>, and \<open>Float64\<close> returns 1.
\<close>

theorem Float64_counterexample:
  "unat (snd (Float64 479971974079168683)) = 576460752303423487
   \<and> fst (Float64 479971974079168683) = 1"
proof -
  have s: "unat (snd (Float64 479971974079168683)) = 576460752303423487"
    unfolding Float64_snd lcg_step_unat by simp
  have "fst (Float64 479971974079168683) = fl64 (real 576460752303423487) / 2 ^ 59"
    unfolding Float64_fst s ..
  also have "\<dots> = 1" using fl64_top_state by simp
  finally show ?thesis using s by simp
qed

text \<open>
  Claim C8, amended. The repeatable generator is the linear congruential generator
  \<open>x \<leftarrow> x * a mod m\<close> with \<open>a = 13^13 = 302875106592253\<close> and \<open>m = 2^59\<close>: the 64-bit wrapping
  product masked with \<open>2^59 - 1\<close> is the product modulo \<open>2^59\<close>. The worker sets the state to 3
  before each tracklet when \<open>repeatable\<close> is set. \<open>Float64\<close> advances the state first and
  returns the \<open>float64\<close> nearest to the new state \<open>x\<close>, divided by \<open>m\<close>: a number in \<open>[0, 1]\<close>
  within the relative distance \<open>2^-53\<close> of \<open>x / m\<close>, equal to \<open>x / m\<close> when \<open>x < 2^53\<close>, and less
  than 1 exactly when \<open>x < 2^59 - 32\<close>.
\<close>

theorem lcg_Float64:
  "unat lcga = 13 ^ 13 \<and> unat lcga = 302875106592253
   \<and> reseed True rnd0 = 3
   \<and> unat (snd (Float64 r)) = (unat r * 302875106592253) mod 2 ^ 59
   \<and> fst (Float64 r) = fl64 (real (unat (snd (Float64 r)))) / 2 ^ 59
   \<and> \<bar>fst (Float64 r) - real (unat (snd (Float64 r))) / 2 ^ 59\<bar>
        \<le> real (unat (snd (Float64 r))) / 2 ^ 59 * u64
   \<and> 0 \<le> fst (Float64 r) \<and> fst (Float64 r) \<le> 1
   \<and> (unat (snd (Float64 r)) < 2 ^ 53
         \<longrightarrow> fst (Float64 r) = real (unat (snd (Float64 r))) / 2 ^ 59)
   \<and> (fst (Float64 r) < 1 \<longleftrightarrow> unat (snd (Float64 r)) < 2 ^ 59 - 32)"
proof -
  let ?n = "unat (snd (Float64 r))"
  have n: "?n < 2 ^ 59" unfolding Float64_snd by (rule lcg_step_less)
  have c1: "unat lcga = 13 ^ 13" by (simp add: lcga_val)
  have c3: "reseed True rnd0 = 3" by (simp add: reseed_def)
  have c4: "?n = (unat r * 302875106592253) mod 2 ^ 59"
    unfolding Float64_snd by (rule lcg_step_unat)
  have c5: "\<bar>fst (Float64 r) - real ?n / 2 ^ 59\<bar> \<le> real ?n / 2 ^ 59 * u64"
    unfolding Float64_fst by (rule fl64_nat_near)
  have c8: "fst (Float64 r) = real ?n / 2 ^ 59" if "?n < 2 ^ 53"
    unfolding Float64_fst using fl64_nat_exact [OF that] by simp
  have c9: "fst (Float64 r) < 1 \<longleftrightarrow> ?n < 2 ^ 59 - 32"
  proof (cases "?n < 2 ^ 59 - 32")
    case True
    from fl64_nat_less [OF True] have "fl64 (real ?n) / 2 ^ 59 < 1" by simp
    with True show ?thesis unfolding Float64_fst by simp
  next
    case False
    then have "2 ^ 59 - 32 \<le> ?n" by simp
    from fl64_nat_top [OF this n] have "fl64 (real ?n) / 2 ^ 59 = 1" by simp
    with False show ?thesis unfolding Float64_fst by simp
  qed
  show ?thesis
    using c1 c3 c4 c5 c8 c9 lcga_val Float64_fst [of r] Float64_range [of r] by blast
qed

theorem lcg_Float64_witness:
  "unat (snd (Float64 3)) = 908625319776759
   \<and> (908625319776759 :: nat) < 2 ^ 53
   \<and> fst (Float64 3) = 908625319776759 / 2 ^ 59
   \<and> fst (Float64 3) < 1"
proof -
  note t = lcg_Float64 [of 0 3]
  from t have "unat (snd (Float64 3)) = (unat (3 :: lcgRand) * 302875106592253) mod 2 ^ 59"
    by blast
  then have s: "unat (snd (Float64 3)) = 908625319776759" by simp
  have l: "(908625319776759 :: nat) < 2 ^ 53" by simp
  from t s l have f: "fst (Float64 3) = real 908625319776759 / 2 ^ 59" by simp
  from t s have "fst (Float64 3) < 1" by simp
  with s l f show ?thesis by simp
qed

subsection \<open>The bin model\<close>

lemma mix_less: "(a::nat) < m \<Longrightarrow> b < n \<Longrightarrow> a * n + b < m * n"
proof -
  assume a: "a < m" and b: "b < n"
  have "a * n + b < a * n + n" using b by simp
  also have "\<dots> = (a + 1) * n" by simp
  also have "\<dots> \<le> m * n" using a by (intro mult_le_mono1) simp
  finally show ?thesis .
qed

lemma mix_div: "(b::nat) < n \<Longrightarrow> (a * n + b) div n = a"
proof -
  assume b: "b < n"
  then have "n \<noteq> 0" by simp
  then have "(a * n + b) div n = a + b div n" by (rule div_mult_self3)
  with b show ?thesis by simp
qed

lemma mix_mod: "(b::nat) < n \<Longrightarrow> (a * n + b) mod n = b"
  by simp

lemma Mx_less:
  assumes "iq < length (QPart m)" "ie < length (EPart m)" "ii < length (IPart m)"
    "ih < length (HPart m)"
  shows "Mx m iq ie ii ih < modelSize m"
  unfolding Mx_def modelSize_def
  by (intro mix_less assms)

lemma unflatten_Mx:
  assumes "ie < length (EPart m)" "ii < length (IPart m)" "ih < length (HPart m)"
  shows "unflatten m (Mx m iq ie ii ih) = (iq, ie, ii, ih)"
proof -
  let ?ne = "length (EPart m)" and ?ni = "length (IPart m)" and ?nh = "length (HPart m)"
  let ?B = "iq * ?ne + ie"
  let ?A = "?B * ?ni + ii"
  let ?x = "?A * ?nh + ih"
  have h: "?x mod ?nh = ih" "?x div ?nh = ?A"
    using assms(3) by (rule mix_mod, rule mix_div)
  have i: "?A mod ?ni = ii" "?A div ?ni = ?B"
    using assms(2) by (rule mix_mod, rule mix_div)
  have e: "?B mod ?ne = ie" "?B div ?ne = iq"
    using assms(1) by (rule mix_mod, rule mix_div)
  have d2: "?x div (?ni * ?nh) = ?B"
    by (simp only: mult.commute [of ?ni ?nh] div_mult2_eq h i)
  have d3: "?x div (?ne * ?ni * ?nh) = iq"
  proof -
    have "?ne * ?ni * ?nh = (?nh * ?ni) * ?ne" by (simp only: mult_ac)
    then have "?x div (?ne * ?ni * ?nh) = ?x div ?nh div ?ni div ?ne"
      by (simp only: div_mult2_eq)
    then show ?thesis by (simp only: h i e)
  qed
  show ?thesis
    unfolding unflatten_def Mx_def by (simp only: h i e d2 d3)
qed

lemma Mx_unflatten:
  "(case unflatten m x of (iq, ie, ii, ih) \<Rightarrow> Mx m iq ie ii ih) = x"
proof -
  let ?ne = "length (EPart m)" and ?ni = "length (IPart m)" and ?nh = "length (HPart m)"
  let ?y = "x div ?nh"
  let ?z = "?y div ?ni"
  have d2: "x div (?ni * ?nh) = ?z"
    by (simp only: mult.commute [of ?ni ?nh] div_mult2_eq)
  have d3: "x div (?ne * ?ni * ?nh) = ?z div ?ne"
  proof -
    have "?ne * ?ni * ?nh = (?nh * ?ni) * ?ne" by (simp only: mult_ac)
    then show ?thesis by (simp only: div_mult2_eq)
  qed
  have "(?z div ?ne) * ?ne + ?z mod ?ne = ?z" by simp
  moreover have "?z * ?ni + ?y mod ?ni = ?y" by simp
  moreover have "?y * ?nh + x mod ?nh = x" by simp
  ultimately show ?thesis
    unfolding unflatten_def Mx_def by (simp only: d2 d3 prod.case)
qed

lemma unflatten_inRange:
  assumes "x < modelSize m"
  shows "unflatten m x \<in> inRange m"
proof -
  let ?nq = "length (QPart m)" and ?ne = "length (EPart m)" and ?ni = "length (IPart m)"
    and ?nh = "length (HPart m)"
  from assms have pos: "0 < ?nq" "0 < ?ne" "0 < ?ni" "0 < ?nh"
    by (auto simp: modelSize_def)
  have "x < ?nq * (?ne * ?ni * ?nh)" using assms by (simp add: modelSize_def mult_ac)
  then have "x div (?ne * ?ni * ?nh) < ?nq"
    by (simp add: less_mult_imp_div_less mult.commute)
  with pos show ?thesis
    by (simp add: unflatten_def inRange_def)
qed

text \<open>
  Claim C7. With \<open>nq\<close>, \<open>ne\<close>, \<open>ni\<close>, \<open>nh\<close> the lengths of the four partitions and the
  model size their product, \<open>Mx iq ie ii ih = ((iq * ne + ie) * ni + ii) * nh + ih\<close> is a
  bijection between the index tuples in range and the numbers below the model size;
  unflattening a number below the model size gives a tuple in range on which \<open>Mx\<close> returns the
  number, and unflattening the flat index of a tuple in range gives the tuple back.
\<close>

theorem Mx_bijection:
  "bij_betw (\<lambda>(iq, ie, ii, ih). Mx m iq ie ii ih) (inRange m) {..<modelSize m}
   \<and> (\<forall>x<modelSize m. unflatten m x \<in> inRange m
         \<and> (case unflatten m x of (iq, ie, ii, ih) \<Rightarrow> Mx m iq ie ii ih) = x)
   \<and> (\<forall>t\<in>inRange m. unflatten m (case t of (iq, ie, ii, ih) \<Rightarrow> Mx m iq ie ii ih) = t)"
proof -
  let ?f = "\<lambda>(iq, ie, ii, ih). Mx m iq ie ii ih"
  have left: "\<forall>t\<in>inRange m. unflatten m (?f t) = t"
    by (auto simp: inRange_def unflatten_Mx)
  have right: "\<forall>x\<in>{..<modelSize m}. ?f (unflatten m x) = x"
    using Mx_unflatten by simp
  have img1: "?f ` inRange m \<subseteq> {..<modelSize m}"
    by (auto simp: inRange_def Mx_less)
  have img2: "unflatten m ` {..<modelSize m} \<subseteq> inRange m"
    using unflatten_inRange by auto
  have "bij_betw ?f (inRange m) {..<modelSize m}"
    by (rule bij_betw_byWitness [where f' = "unflatten m", OF left right img1 img2])
  with left right unflatten_inRange show ?thesis by simp
qed

theorem Mx_bijection_witness:
  "35 < modelSize wBins \<and> unflatten wBins 35 = (2, 1, 1, 2) \<and> Mx wBins 2 1 1 2 = 35
   \<and> (2, 1, 1, 2) \<in> inRange wBins
   \<and> bij_betw (\<lambda>(iq, ie, ii, ih). Mx wBins iq ie ii ih) (inRange wBins) {..<modelSize wBins}"
proof -
  have lt: "35 < modelSize wBins" by (simp add: modelSize_def wBins_def)
  have u: "unflatten wBins 35 = (2, 1, 1, 2)" by code_simp
  from Mx_bijection [of wBins] lt
  have "unflatten wBins 35 \<in> inRange wBins
      \<and> (case unflatten wBins 35 of (iq, ie, ii, ih) \<Rightarrow> Mx wBins iq ie ii ih) = 35"
    by blast
  with u lt Mx_bijection [of wBins] show ?thesis by simp
qed

lemma partScan_inv:
  "k < length part \<Longrightarrow> \<forall>j<k. part ! j \<le> v \<Longrightarrow>
     (\<exists>j. partScan v part k = Found j \<and> firstBelow v part j)
     \<or> (partScan v part k = OutOfModel (length part) \<and> (\<forall>j<length part. part ! j \<le> v))"
proof (induction v part k rule: partScan.induct)
  case (1 v part k)
  show ?case
  proof (cases "v \<ge> part ! k")
    case False
    with "1.prems" have "partScan v part k = Found k \<and> firstBelow v part k"
      by (auto simp: firstBelow_def partScan.simps [of v part k])
    then show ?thesis by blast
  next
    case ge: True
    have all: "\<forall>j<k + 1. part ! j \<le> v"
      using "1.prems"(2) ge by (auto simp: less_Suc_eq)
    show ?thesis
    proof (cases "k + 1 = length part")
      case True
      with "1.prems" ge all show ?thesis
        by (auto simp: partScan.simps [of v part k])
    next
      case False
      with "1.prems" have lt: "k + 1 < length part" by simp
      have eq: "partScan v part k = partScan v part (k + 1)"
        using "1.prems" ge False by (simp add: partScan.simps [of v part k])
      from "1.IH" [OF _ ge False lt all] "1.prems" show ?thesis
        by (simp only: eq)
    qed
  qed
qed

lemma partScan_0:
  assumes "part \<noteq> []"
  shows "(\<exists>j. partScan v part 0 = Found j \<and> firstBelow v part j)
     \<or> (partScan v part 0 = OutOfModel (length part) \<and> (\<forall>j<length part. part ! j \<le> v))"
  using assms partScan_inv [of 0 part v] by simp

lemma firstBelow_ex: "firstBelow v part k \<Longrightarrow> \<exists>j<length part. v < part ! j"
  by (auto simp: firstBelow_def)


lemma partScan_Found:
  "part \<noteq> [] \<Longrightarrow> partScan v part 0 = Found j \<Longrightarrow> firstBelow v part j"
  using partScan_0 [of part v] by auto

lemma partScan_Out:
  "part \<noteq> [] \<Longrightarrow> partScan v part 0 = OutOfModel n \<Longrightarrow> \<not> (\<exists>j<length part. v < part ! j)"
  using partScan_0 [of part v] by (auto simp: not_less)

lemma partScan_noPanic:
  "part \<noteq> [] \<Longrightarrow> partScan v part 0 \<noteq> IndexPanic"
  using partScan_0 [of part v] by auto

lemma Qei_spec:
  assumes ne: "QPart m \<noteq> []" "EPart m \<noteq> []" "IPart m \<noteq> []"
  shows "\<exists>qx ex ix inModel. Qei m q e i = Some (qx, ex, ix, inModel)
     \<and> (inModel \<longleftrightarrow> (\<exists>k<length (QPart m). q < QPart m ! k)
                    \<and> (\<exists>k<length (EPart m). e < EPart m ! k)
                    \<and> (\<exists>k<length (IPart m). i < IPart m ! k))
     \<and> (inModel \<longrightarrow> firstBelow q (QPart m) qx \<and> firstBelow e (EPart m) ex
                      \<and> firstBelow i (IPart m) ix)"
proof (cases "partScan q (QPart m) 0")
  case IndexPanic
  with partScan_noPanic [OF ne(1)] show ?thesis by simp
next
  case (OutOfModel n)
  from partScan_Out [OF ne(1) this] OutOfModel show ?thesis
    by (auto simp: Qei_def)
next
  case fq: (Found qx)
  note q = partScan_Found [OF ne(1) fq]
  show ?thesis
  proof (cases "partScan e (EPart m) 0")
    case IndexPanic
    with partScan_noPanic [OF ne(2)] show ?thesis by simp
  next
    case (OutOfModel n)
    from partScan_Out [OF ne(2) this] OutOfModel fq show ?thesis
      by (auto simp: Qei_def)
  next
    case fe: (Found ex)
    note e = partScan_Found [OF ne(2) fe]
    show ?thesis
    proof (cases "partScan i (IPart m) 0")
      case IndexPanic
      with partScan_noPanic [OF ne(3)] show ?thesis by simp
    next
      case (OutOfModel n)
      from partScan_Out [OF ne(3) this] OutOfModel fq fe show ?thesis
        by (auto simp: Qei_def)
    next
      case fi: (Found ix)
      note i = partScan_Found [OF ne(3) fi]
      have "Qei m q e i = Some (qx, ex, ix, True)"
        using fq fe fi by (simp add: Qei_def)
      with q e i firstBelow_ex [OF q] firstBelow_ex [OF e] firstBelow_ex [OF i]
      show ?thesis by auto
    qed
  qed
qed

lemma Hloop_inv:
  "ih \<le> n \<Longrightarrow> n < length (HPart m) \<Longrightarrow> LastH m = int n \<Longrightarrow> \<forall>j<ih. HPart m ! j \<le> h \<Longrightarrow>
     \<exists>k. Hloop m h ih = Some k \<and> k \<le> n \<and> (\<forall>j<k. HPart m ! j \<le> h) \<and> (k < n \<longrightarrow> h < HPart m ! k)"
proof (induction m h ih rule: Hloop.induct)
  case (1 m h ih)
  show ?case
  proof (cases "h \<ge> HPart m ! ih \<and> int ih < LastH m")
    case False
    with "1.prems" have "Hloop m h ih = Some ih"
      by (subst Hloop.simps) auto
    with "1.prems" False show ?thesis by auto
  next
    case True
    with "1.prems" have lt: "ih + 1 \<le> n" by simp
    have all: "\<forall>j<ih + 1. HPart m ! j \<le> h"
      using "1.prems"(4) True by (auto simp: less_Suc_eq)
    have eq: "Hloop m h ih = Hloop m h (ih + 1)"
      using "1.prems" True by (simp add: Hloop.simps [of m h ih])
    have nl: "\<not> length (HPart m) \<le> ih" using "1.prems" by simp
    from "1.IH" [OF nl True lt "1.prems"(2) "1.prems"(3) all] show ?thesis
      by (simp only: eq)
  qed
qed

lemma H_spec:
  assumes "HPart m \<noteq> []" "LastH m = int (length (HPart m)) - 1"
  shows "\<exists>k. H m h = Some k \<and> k \<le> nat (LastH m)
     \<and> (if \<exists>j<nat (LastH m). h < HPart m ! j then firstBelow h (HPart m) k else k = nat (LastH m))
     \<and> (sorted (HPart m) \<and> last (HPart m) \<le> h \<longrightarrow> k = nat (LastH m))"
proof -
  let ?n = "nat (LastH m)"
  have n: "?n < length (HPart m)" "LastH m = int ?n" "?n = length (HPart m) - 1"
    using assms by (cases "HPart m"; simp)+
  from Hloop_inv [of 0 ?n m h] n obtain k where
    k: "H m h = Some k" "k \<le> ?n" "\<forall>j<k. HPart m ! j \<le> h" "k < ?n \<longrightarrow> h < HPart m ! k"
    by (auto simp: H_def)
  have a: "(\<exists>j<?n. h < HPart m ! j) \<Longrightarrow> firstBelow h (HPart m) k"
  proof -
    assume "\<exists>j<?n. h < HPart m ! j"
    then obtain j where j: "j < ?n" "h < HPart m ! j" by blast
    with k(3) have "\<not> j < k" by (auto simp: not_less [symmetric])
    with j k show ?thesis using n by (auto simp: firstBelow_def not_less [symmetric])
  qed
  have b: "\<not> (\<exists>j<?n. h < HPart m ! j) \<Longrightarrow> k = ?n"
    using k by (cases "k < ?n") auto
  have c: "sorted (HPart m) \<Longrightarrow> last (HPart m) \<le> h \<Longrightarrow> k = ?n"
  proof (rule ccontr)
    assume s: "sorted (HPart m)" and l: "last (HPart m) \<le> h" and "k \<noteq> ?n"
    with k have lt: "k < ?n" "h < HPart m ! k" by auto
    have "HPart m ! k \<le> HPart m ! ?n"
      using s lt n by (intro sorted_nth_mono) auto
    moreover have "last (HPart m) = HPart m ! ?n"
      using assms n by (simp add: last_conv_nth)
    ultimately show False using l lt by simp
  qed
  from a b c k show ?thesis by auto
qed

text \<open>
  Claim C6. On the q, e and i axes the index returned is the smallest \<open>k\<close> with
  \<open>v < Part[k]\<close>, and \<open>Qei\<close> reports \<open>inModel = false\<close> exactly when one of the three values
  has no such \<open>k\<close>. The H axis is clamped: \<open>H h\<close> is the smallest \<open>k\<close> with \<open>h < HPart[k]\<close>
  when there is one below the last index, and the last index \<open>LastH\<close> otherwise; for a
  sorted partition every \<open>h\<close> at or above the last edge maps to \<open>LastH\<close>. The partitions are
  not empty and \<open>LastH\<close> is the last index of \<open>HPart\<close>, as the model builder sets it.
\<close>

theorem bin_index_smallest:
  assumes "QPart m \<noteq> []" "EPart m \<noteq> []" "IPart m \<noteq> []"
    and "HPart m \<noteq> []" "LastH m = int (length (HPart m)) - 1"
  shows "(\<exists>qx ex ix inModel. Qei m q e i = Some (qx, ex, ix, inModel)
     \<and> (inModel \<longleftrightarrow> (\<exists>k<length (QPart m). q < QPart m ! k)
                    \<and> (\<exists>k<length (EPart m). e < EPart m ! k)
                    \<and> (\<exists>k<length (IPart m). i < IPart m ! k))
     \<and> (inModel \<longrightarrow> firstBelow q (QPart m) qx \<and> firstBelow e (EPart m) ex
                      \<and> firstBelow i (IPart m) ix))
   \<and> (\<exists>k. H m h = Some k \<and> k \<le> nat (LastH m)
     \<and> (if \<exists>j<nat (LastH m). h < HPart m ! j then firstBelow h (HPart m) k
         else k = nat (LastH m))
     \<and> (sorted (HPart m) \<and> last (HPart m) \<le> h \<longrightarrow> k = nat (LastH m)))"
  using Qei_spec [OF assms(1-3), of q e i] H_spec [OF assms(4-5), of h] by (rule conjI)

theorem bin_index_smallest_witness:
  "Qei wBins 1.5 0.7 5 = Some (1, 1, 0, True)
   \<and> firstBelow 1.5 (QPart wBins) 1 \<and> firstBelow 0.7 (EPart wBins) 1
   \<and> firstBelow 5 (IPart wBins) 0
   \<and> H wBins 7 = Some 1 \<and> firstBelow 7 (HPart wBins) 1
   \<and> H wBins 25 = Some 2"
proof -
  have ne: "QPart wBins \<noteq> []" "EPart wBins \<noteq> []" "IPart wBins \<noteq> []" "HPart wBins \<noteq> []"
    "LastH wBins = int (length (HPart wBins)) - 1"
    by (simp_all add: wBins_def)
  have q: "Qei wBins 1.5 0.7 5 = Some (1, 1, 0, True)"
    by (simp add: Qei_def wBins_def partScan.simps)
  have h7: "H wBins 7 = Some 1" and h25: "H wBins 25 = Some 2"
    by (simp_all add: H_def wBins_def Hloop.simps)
  have ex7: "\<exists>j<nat (LastH wBins). (7::real) < HPart wBins ! j"
    by (rule exI [of _ 1]) (simp add: wBins_def)
  from bin_index_smallest [OF ne, of "1.5" "0.7" 5 7] q h7 ex7
  have a: "firstBelow 1.5 (QPart wBins) 1 \<and> firstBelow 0.7 (EPart wBins) 1
      \<and> firstBelow 5 (IPart wBins) 0 \<and> firstBelow 7 (HPart wBins) 1"
    by auto
  with q h7 h25 show ?thesis by simp
qed

subsection \<open>Two-body elements\<close>

text \<open>
  Claim C5. For a positive distance \<open>d\<close>, \<open>AeiHv p v d\<close> returns a nil momentum vector exactly
  when \<open>d > 100 * (2 - d * |v|^2)\<close> or the eccentricity \<open>e = sqrt (1 - h^2 / a)\<close>, with
  \<open>a = d / (2 - d * |v|^2)\<close>, exceeds 0.99. When it succeeds it returns \<open>a\<close>, \<open>e\<close>, the momentum
  vector \<open>h = p \<times> v\<close>, and the inclination 0 if \<open>h_z \<ge> |h|\<close> and \<open>arccos (h_z / |h|)\<close> in
  degrees otherwise.
\<close>

theorem AeiHv_gates:
  assumes "0 < d"
  shows "((snd (snd (snd (AeiHv p v d))) = None) \<longleftrightarrow>
           (d > 100 * (2 - d * Square v)
            \<or> sqrt (1 - Square (Cross p v) / (d / (2 - d * Square v))) > 0.99))
    \<and> (snd (snd (snd (AeiHv p v d))) \<noteq> None \<longrightarrow>
           AeiHv p v d =
             (d / (2 - d * Square v),
              sqrt (1 - Square (Cross p v) / (d / (2 - d * Square v))),
              (if Z (Cross p v) \<ge> sqrt (Square (Cross p v)) then 0
               else arccos (Z (Cross p v) / sqrt (Square (Cross p v))) * 180 / pi),
              Some (Cross p v)))"
  by (auto simp: AeiHv_def Let_def mult.commute)

theorem AeiHv_gates_witness:
  "(0::real) < 1
   \<and> AeiHv \<lparr>X = 1, Y = 0, Z = 0\<rparr> \<lparr>X = 0, Y = 1, Z = 0\<rparr> 1
       = (1, 0, 0, Some \<lparr>X = 0, Y = 0, Z = 1\<rparr>)"
proof -
  have nn: "snd (snd (snd (AeiHv \<lparr>X = 1, Y = 0, Z = 0\<rparr> \<lparr>X = 0, Y = 1, Z = 0\<rparr> 1))) \<noteq> None"
    by (simp add: AeiHv_def Let_def Cross_def Square_def)
  from AeiHv_gates [of 1 "\<lparr>X = 1, Y = 0, Z = 0\<rparr>" "\<lparr>X = 0, Y = 1, Z = 0\<rparr>"] nn
  show ?thesis by (simp add: Cross_def Square_def)
qed

subsection \<open>The observational error\<close>

text \<open>
  Claim C3, as stated, for \<open>clipErr\<close> of solver/cliperr.go: with a default of \<open>1/100000\<close> rad
  and a measured RMS of 1, the result is the default and not the larger of the two, since the
  function takes the measured RMS in arc seconds.
\<close>

theorem clipErr_counterexample:
  "clipErr clipSolver 1 ''291'' \<noteq> max (obsErrDefault clipSolver) 1"
proof -
  have "pi / (180 * 3600) < 1 / 100000"
    using pi_less_4 by simp
  then show ?thesis
    by (simp add: clipErr_def clipSolver_def Let_def)
qed

text \<open>
  Claim C3, amended. The default is \<open>obsErrMap[qual]\<close> when present and \<open>obsErrDefault\<close>
  otherwise; a default of 0 gives 0 whatever the measured RMS; otherwise a measured RMS of 0
  gives the default; otherwise the result is the larger of the default and the measured RMS
  in radians. \<open>clipErr\<close> of solver/cliperr.go takes the measured RMS in arc seconds and
  multiplies it by \<open>pi / (180 * 3600)\<close> for the comparison; \<open>clipErr\<close> on \<open>unit.Angle\<close> takes it in
  radians and compares it as it is.
\<close>

theorem clipErr_precedence:
  "clipErr s computedRms qual =
     (let def = (case obsErrMap s qual of Some e \<Rightarrow> e | None \<Rightarrow> obsErrDefault s)
      in if def = 0 then 0
         else if computedRms = 0 then def
         else max def (computedRms * pi / 648000))
   \<and> clipErrAngle s computedRms qual =
     (let def = (case obsErrMap s qual of Some e \<Rightarrow> e | None \<Rightarrow> obsErrDefault s)
      in if def = 0 then 0
         else if computedRms = 0 then def
         else max def computedRms)"
  by (simp add: clipErr_def clipErrAngle_def Let_def max_def)

subsection \<open>The arc validator\<close>

lemma timesIncrease_sorted:
  "timesIncrease t0 obs \<longleftrightarrow> sorted_wrt (<) (t0 # map (\<lambda>ob. Mjd (Meas ob)) obs)"
proof (induction obs arbitrary: t0)
  case Nil
  show ?case by simp
next
  case (Cons ob obs)
  let ?t = "Mjd (Meas ob)"
  have step: "timesIncrease t0 (ob # obs) \<longleftrightarrow> t0 < ?t \<and> timesIncrease ?t obs"
    by (simp add: Let_def not_le)
  have ih: "timesIncrease ?t obs \<longleftrightarrow>
      (\<forall>x\<in>set obs. ?t < Mjd (Meas x)) \<and> sorted_wrt (<) (map (\<lambda>ob. Mjd (Meas ob)) obs)"
    by (simp add: Cons.IH)
  have tr: "\<forall>x\<in>set obs. t0 < Mjd (Meas x)"
    if a: "t0 < ?t" and b: "\<forall>x\<in>set obs. ?t < Mjd (Meas x)"
  proof
    fix x assume "x \<in> set obs"
    with b have "?t < Mjd (Meas x)" by blast
    with a show "t0 < Mjd (Meas x)" by (rule less_trans)
  qed
  have "sorted_wrt (<) (t0 # map (\<lambda>ob. Mjd (Meas ob)) (ob # obs)) \<longleftrightarrow>
      t0 < ?t \<and> (\<forall>x\<in>set obs. t0 < Mjd (Meas x)) \<and> (\<forall>x\<in>set obs. ?t < Mjd (Meas x))
      \<and> sorted_wrt (<) (map (\<lambda>ob. Mjd (Meas ob)) obs)"
    by simp
  also have "\<dots> \<longleftrightarrow> t0 < ?t \<and> timesIncrease ?t obs"
    unfolding ih using tr by blast
  finally show ?case unfolding step by simp
qed

lemma timesIncrease_0:
  "obs \<noteq> [] \<Longrightarrow> timesIncrease 0 obs \<longleftrightarrow>
     0 < Mjd (Meas (hd obs)) \<and> sorted_wrt (<) (map (\<lambda>ob. Mjd (Meas ob)) obs)"
proof -
  assume ne: "obs \<noteq> []"
  then obtain ob rest where obs: "obs = ob # rest" by (cases obs) auto
  let ?t = "Mjd (Meas ob)"
  have tr: "\<forall>x\<in>set rest. 0 < Mjd (Meas x)"
    if a: "0 < ?t" and b: "\<forall>x\<in>set rest. ?t < Mjd (Meas x)"
  proof
    fix x assume "x \<in> set rest"
    with b have "?t < Mjd (Meas x)" by blast
    with a show "0 < Mjd (Meas x)" by (rule less_trans)
  qed
  have "timesIncrease 0 obs \<longleftrightarrow>
      0 < ?t \<and> (\<forall>x\<in>set rest. 0 < Mjd (Meas x)) \<and> (\<forall>x\<in>set rest. ?t < Mjd (Meas x))
      \<and> sorted_wrt (<) (map (\<lambda>ob. Mjd (Meas ob)) rest)"
    unfolding timesIncrease_sorted obs by simp
  also have "\<dots> \<longleftrightarrow> 0 < ?t \<and> (\<forall>x\<in>set rest. ?t < Mjd (Meas x))
      \<and> sorted_wrt (<) (map (\<lambda>ob. Mjd (Meas ob)) rest)"
    using tr by blast
  finally show ?thesis unfolding obs by simp
qed

text \<open>
  Claim C10. \<open>sendValid\<close> forwards an arc if and only if it has at least two observations,
  the time of the first is positive, the times increase strictly, and the first and the last
  observation differ in RA or in Dec; the arc forwarded is a copy of the arc given. The
  motion guard reads the first and the last observation only.
\<close>

theorem sendValid_iff:
  "((sendValid a \<noteq> None) \<longleftrightarrow>
     (2 \<le> length (Obs a)
      \<and> 0 < Mjd (Meas (hd (Obs a)))
      \<and> sorted_wrt (<) (map (\<lambda>ob. Mjd (Meas ob)) (Obs a))
      \<and> \<not> (Ra (Meas (hd (Obs a))) = Ra (Meas (last (Obs a)))
            \<and> Dec (Meas (hd (Obs a))) = Dec (Meas (last (Obs a))))))
   \<and> (sendValid a \<noteq> None \<longrightarrow> sendValid a = Some a)"
proof (cases "length (Obs a) < 2")
  case True
  then show ?thesis by (simp add: sendValid_def)
next
  case False
  then have ne: "Obs a \<noteq> []" by auto
  have hd: "Obs a ! 0 = hd (Obs a)" "Obs a ! (length (Obs a) - 1) = last (Obs a)"
    using ne by (simp_all add: last_conv_nth hd_conv_nth)
  have len: "2 \<le> length (Obs a)" using False by simp
  show ?thesis
  proof (cases "timesIncrease 0 (Obs a)")
    case t: False
    with False have "sendValid a = None" by (simp add: sendValid_def)
    with t timesIncrease_0 [OF ne] show ?thesis by blast
  next
    case t: True
    show ?thesis
    proof (cases "Ra (Meas (hd (Obs a))) = Ra (Meas (last (Obs a)))
            \<and> Dec (Meas (hd (Obs a))) = Dec (Meas (last (Obs a)))")
      case True
      with False t hd have "sendValid a = None" by (simp add: sendValid_def Let_def)
      with True show ?thesis by blast
    next
      case m: False
      with False t hd have "sendValid a = Some a" by (auto simp: sendValid_def Let_def)
      with m t len timesIncrease_0 [OF ne] show ?thesis by blast
    qed
  qed
qed

theorem sendValid_iff_witness:
  "sendValid wArc = Some wArc \<and> 2 \<le> length (Obs wArc)
   \<and> sorted_wrt (<) (map (\<lambda>ob. Mjd (Meas ob)) (Obs wArc))"
proof -
  have "sendValid wArc \<noteq> None"
    by (simp add: sendValid_def wArc_def wObs_def Let_def)
  with sendValid_iff [of wArc] show ?thesis by simp
qed

subsection \<open>The search and the scores\<close>

lemma dScopeEq_refl [simp]: "dScopeEq s s"
  by (simp add: dScopeEq_def)

lemma dScopeEq_trans: "dScopeEq a b \<Longrightarrow> dScopeEq b c \<Longrightarrow> dScopeEq a c"
  by (simp add: dScopeEq_def)

lemma dScopeEq_all2_refl [simp]: "list_all2 dScopeEq css css"
  by (simp add: list_all2_refl)

lemma dScopeEq_all2_trans:
  "list_all2 dScopeEq a b \<Longrightarrow> list_all2 dScopeEq b c \<Longrightarrow> list_all2 dScopeEq a c"
  by (rule list_all2_trans [of dScopeEq dScopeEq dScopeEq]) (auto intro: dScopeEq_trans)

lemma tagFrame_refl [simp]: "tagFrame tk tk"
  by (simp add: tagFrame_def)

lemma tagFrame_trans: "tagFrame a b \<Longrightarrow> tagFrame b c \<Longrightarrow> tagFrame a c"
  by (auto simp: tagFrame_def intro: dScopeEq_all2_trans)

lemma dScopeEq_update:
  "cx < length css \<Longrightarrow> dScopeEq (css ! cx) s' \<Longrightarrow> list_all2 dScopeEq css (css[cx := s'])"
  by (simp add: list_all2_conv_all_nth nth_list_update)

lemma tagClasses_frame:
  "tagClasses bx q e i h cx ccs css nt = Some (nt', css') \<Longrightarrow> list_all2 dScopeEq css css'"
proof (induction ccs arbitrary: cx css nt)
  case Nil
  then show ?case by simp
next
  case (Cons c rest)
  from Cons.prems have ok: "cx < length css" "c < length CList"
    by (auto split: if_splits)
  let ?s = "css ! cx"
  let ?in = "css[cx := ?s\<lparr>dInClass := store (dInClass ?s) bx True\<rparr>]"
  let ?non = "css[cx := ?s\<lparr>dNonClass := store (dNonClass ?s) bx True\<rparr>]"
  have a: "list_all2 dScopeEq css ?in" "list_all2 dScopeEq css ?non"
    using ok by (auto intro!: dScopeEq_update simp: dScopeEq_def)
  from Cons.prems ok consider
      "tagClasses bx q e i h (cx + 1) rest ?in True = Some (nt', css')"
    | "tagClasses bx q e i h (cx + 1) rest ?non True = Some (nt', css')"
    | "tagClasses bx q e i h (cx + 1) rest css nt = Some (nt', css')"
    by (auto simp: Let_def split: if_splits)
  then show ?case
  proof cases
    case 1
    from Cons.IH [OF 1] a(1) show ?thesis by (rule dScopeEq_all2_trans [rotated])
  next
    case 2
    from Cons.IH [OF 2] a(2) show ?thesis by (rule dScopeEq_all2_trans [rotated])
  next
    case 3
    from Cons.IH [OF 3] show ?thesis .
  qed
qed

lemma tagAngle_frame:
  "tagAngle an tk = Some (t, tk') \<Longrightarrow> tagFrame tk tk'"
  unfolding tagAngle_def Let_def
  by (auto simp: tagFrame_def split: prod.splits option.splits if_splits
           dest: tagClasses_frame)

lemma aRange_Suc:
  "aRange (Suc n) ang1 ang2 age tk =
     (case tagAngle (aMid ang1 ang2 tk) (tk\<lparr>rndCalls := rndCalls tk + 1\<rparr>) of
        None \<Rightarrow> None
      | Some (t, tk2) \<Rightarrow>
          if t \<or> (ang2 - ang1) / 3 > minAngleStep
          then (case aRange n ang1 (aMid ang1 ang2 tk) 0 tk2 of
                  None \<Rightarrow> None
                | Some tk3 \<Rightarrow> aRange n (aMid ang1 ang2 tk) ang2 0 tk3)
          else if age < ageLimit
          then (case aRange n ang1 (aMid ang1 ang2 tk) (age + 1) tk2 of
                  None \<Rightarrow> None
                | Some tk3 \<Rightarrow> aRange n (aMid ang1 ang2 tk) ang2 (age + 1) tk3)
          else Some tk2)"
  by (simp only: aRange.simps Let_def aMid_def)

lemma aRange_SomeE:
  assumes "aRange (Suc n) ang1 ang2 age tk = Some tk'"
  obtains (rec) t tk2 a tk3 where
      "tagAngle (aMid ang1 ang2 tk) (tk\<lparr>rndCalls := rndCalls tk + 1\<rparr>) = Some (t, tk2)"
      "aRange n ang1 (aMid ang1 ang2 tk) a tk2 = Some tk3"
      "aRange n (aMid ang1 ang2 tk) ang2 a tk3 = Some tk'"
    | (stop) t where
      "tagAngle (aMid ang1 ang2 tk) (tk\<lparr>rndCalls := rndCalls tk + 1\<rparr>) = Some (t, tk')"
  using assms unfolding aRange_Suc
  by (auto split: option.splits if_splits)

lemma aRange_frame:
  "aRange fuel ang1 ang2 age tk = Some tk' \<Longrightarrow> tagFrame tk tk'"
proof (induction fuel arbitrary: ang1 ang2 age tk tk')
  case 0
  then show ?case by (simp add: aRange.simps)
next
  case (Suc n)
  have f1: "tagFrame tk (tk\<lparr>rndCalls := rndCalls tk + 1\<rparr>)" by (simp add: tagFrame_def)
  from Suc.prems show ?case
  proof (cases rule: aRange_SomeE)
    case (rec t tk2 a tk3)
    from f1 tagAngle_frame [OF rec(1)] Suc.IH [OF rec(2)] Suc.IH [OF rec(3)]
    show ?thesis by (blast intro: tagFrame_trans)
  next
    case (stop t)
    from f1 tagAngle_frame [OF stop] show ?thesis by (rule tagFrame_trans)
  qed
qed

lemma sFrame_refl [simp]: "sFrame tk tk"
  by (simp add: sFrame_def)

lemma sFrame_trans: "sFrame a b \<Longrightarrow> sFrame b c \<Longrightarrow> sFrame a c"
  by (simp add: sFrame_def)

lemma tagFrame_sFrame: "tagFrame tk tk' \<Longrightarrow> sFrame tk tk'"
  by (auto simp: tagFrame_def sFrame_def dest: list_all2_lengthD)

lemma tagFrame_holds: "stable Q \<Longrightarrow> holds Q tk \<Longrightarrow> tagFrame tk tk' \<Longrightarrow> holds Q tk'"
  unfolding stable_def holds_def tagFrame_def by metis

lemma clearDTags_frame: "tagFrame tk ((clearDTags tk)\<lparr>dAnyTag := False\<rparr>)"
  by (simp add: tagFrame_def clearDTags_def list_all2_conv_all_nth dScopeEq_def)

lemma offsetMotionVector_frame: "tagFrame tk (offsetMotionVector rx dx tk)"
  by (simp add: tagFrame_def offsetMotionVector_def Let_def)

lemma solveDistanceDependentVectors_frame:
  "solveDistanceDependentVectors d tk = Some tk' \<Longrightarrow> tagFrame tk tk'"
  unfolding solveDistanceDependentVectors_def Let_def
  by (auto simp: tagFrame_def split: option.splits)

lemma solveAngleRange_frame:
  "solveAngleRange tk = (a1, a2, ok, tk') \<Longrightarrow> tagFrame tk tk'"
  unfolding solveAngleRange_def Let_def
  by (auto simp: tagFrame_def split: if_splits)

lemma solveAngleRange_calls:
  "solveAngleRange tk = (a1, a2, ok, tk') \<Longrightarrow> tk' = tk\<lparr>tz := tz tk'\<rparr>"
  unfolding solveAngleRange_def Let_def
  by (auto split: if_splits)

lemma drop_Cons_nth:
  "drop cx xs = c # rest \<Longrightarrow> cx < length xs \<and> xs ! cx = c \<and> drop (cx + 1) xs = rest"
proof -
  assume d: "drop cx xs = c # rest"
  then have lt: "cx < length xs" by (cases "cx < length xs") auto
  from d lt have "c = xs ! cx" by (metis nth_via_drop)
  moreover from d have "drop (cx + 1) xs = rest"
    by (metis Suc_eq_plus1 drop_Suc list.sel(3) tl_drop)
  ultimately show ?thesis using lt by simp
qed

lemma promoteBody_frame:
  "promoteBody sv cx c i (nt, s, lg) = Some (nt', s', lg') \<Longrightarrow>
     dInClass s' = dInClass s \<and> dNonClass s' = dNonClass s"
  unfolding promoteBody_def
  by (auto split: if_splits option.splits prod.splits)

lemma promoteClasses_holds:
  "stable Q \<Longrightarrow> holds Q tk \<Longrightarrow> drop cx (classCompute (solver tk)) = ccs \<Longrightarrow>
   promoteClasses i cx ccs nt tk = Some (nt', tk') \<Longrightarrow>
     holds Q tk' \<and> sFrame tk tk' \<and> searchAnglesCalls tk' = searchAnglesCalls tk
     \<and> dTag tk' = dTag tk"
proof (induction ccs arbitrary: cx nt tk)
  case Nil
  then show ?case by simp
next
  case (Cons c rest)
  from Cons.prems(4) obtain s where s: "elemAt (cs tk) cx = Some s"
    by (auto split: option.splits)
  then have cx: "cx < length (cs tk)" "s = cs tk ! cx"
    by (auto simp: elemAt_def split: if_splits)
  from Cons.prems(4) s obtain nt1 s1 lg1 where
    pb: "promoteBody (solver tk) cx c i (nt, s, promotions tk) = Some (nt1, s1, lg1)"
    and rec: "promoteClasses i (cx + 1) rest nt1
                (tk\<lparr>cs := (cs tk)[cx := s1], promotions := lg1\<rparr>) = Some (nt', tk')"
    by (auto split: option.splits)
  let ?tk1 = "tk\<lparr>cs := (cs tk)[cx := s1], promotions := lg1\<rparr>"
  from drop_Cons_nth [OF Cons.prems(3)]
  have c: "cx < length (classCompute (solver tk))" "classCompute (solver tk) ! cx = c"
    "drop (cx + 1) (classCompute (solver tk)) = rest" by auto
  have h1: "holds Q ?tk1"
    using Cons.prems(1,2) cx c pb unfolding stable_def holds_def
    by simp
  have d1: "drop (cx + 1) (classCompute (solver ?tk1)) = rest" using c by simp
  from Cons.IH [OF Cons.prems(1) h1 d1 rec]
  show ?case by (simp add: sFrame_def)
qed

lemma promoteBins_holds:
  "stable Q \<Longrightarrow> holds Q tk \<Longrightarrow> promoteBins m nt tk = Some (nt', tk') \<Longrightarrow>
     holds Q tk' \<and> sFrame tk tk' \<and> searchAnglesCalls tk' = searchAnglesCalls tk"
proof (induction m arbitrary: nt tk)
  case Nil
  then show ?case by simp
next
  case (Cons p m)
  obtain i dtag where p: "p = (i, dtag)" by (cases p)
  show ?case
  proof (cases dtag)
    case False
    with Cons.prems p have "promoteBins m nt tk = Some (nt', tk')" by simp
    from Cons.IH [OF Cons.prems(1,2) this] show ?thesis .
  next
    case True
    with Cons.prems p obtain nt1 tk1 where
      pc: "promoteClasses i 0 (classCompute (solver tk)) nt tk = Some (nt1, tk1)"
      and rec: "promoteBins m nt1 tk1 = Some (nt', tk')"
      by (auto split: option.splits)
    from promoteClasses_holds [OF Cons.prems(1,2) _ pc]
    have a: "holds Q tk1" "sFrame tk tk1" "searchAnglesCalls tk1 = searchAnglesCalls tk"
      by simp_all
    from Cons.IH [OF Cons.prems(1) a(1) rec] a show ?thesis
      by (auto intro: sFrame_trans)
  qed
qed

lemma searchAngles_holds:
  assumes "stable Q" "holds Q tk" "searchAngles fuel tk = Some (r, tk')"
  shows "holds Q tk' \<and> sFrame tk tk' \<and> searchAnglesCalls tk' = searchAnglesCalls tk + 1"
proof -
  let ?tk0 = "tk\<lparr>searchAnglesCalls := searchAnglesCalls tk + 1\<rparr>"
  obtain a1 a2 ok tk1 where sar: "solveAngleRange ?tk0 = (a1, a2, ok, tk1)"
    by (metis prod_cases4)
  have f0: "tagFrame ?tk0 tk1" by (rule solveAngleRange_frame [OF sar])
  have h0: "holds Q ?tk0" using assms(2) by (simp add: holds_def)
  have h1: "holds Q tk1" by (rule tagFrame_holds [OF assms(1) h0 f0])
  have s1: "sFrame tk tk1" "searchAnglesCalls tk1 = searchAnglesCalls tk + 1"
    using f0 by (simp_all add: tagFrame_def sFrame_def) (auto dest: list_all2_lengthD)
  show ?thesis
  proof (cases ok)
    case False
    with assms(3) sar have "tk' = tk1" by (simp add: searchAngles_def)
    with h1 s1 show ?thesis by simp
  next
    case True
    with assms(3) sar obtain tk2 where ar: "aRange fuel a1 a2 0 tk1 = Some tk2"
      and rest: "(if \<not> dAnyTag tk2 then Some (False, tk2)
                  else promoteBins (dTag tk2) False tk2) = Some (r, tk')"
      by (auto simp: searchAngles_def split: option.splits)
    note f2 = aRange_frame [OF ar]
    have h2: "holds Q tk2" by (rule tagFrame_holds [OF assms(1) h1 f2])
    have s2: "sFrame tk tk2" "searchAnglesCalls tk2 = searchAnglesCalls tk + 1"
      using s1 f2 tagFrame_sFrame [OF f2] by (auto intro: sFrame_trans simp: tagFrame_def)
    show ?thesis
    proof (cases "dAnyTag tk2")
      case False
      with rest have "tk' = tk2" by simp
      with h2 s2 show ?thesis by simp
    next
      case True
      with rest have "promoteBins (dTag tk2) False tk2 = Some (r, tk')" by simp
      from promoteBins_holds [OF assms(1) h2 this] s2 show ?thesis
        by (auto intro: sFrame_trans)
    qed
  qed
qed

lemma searchOffsets_holds:
  "stable Q \<Longrightarrow> holds Q tk \<Longrightarrow> searchOffsets fuel d offs nt tk = Some (r, tk') \<Longrightarrow>
     holds Q tk' \<and> sFrame tk tk'"
proof (induction offs arbitrary: nt tk)
  case Nil
  then show ?case by simp
next
  case (Cons p offs)
  obtain ri di where p: "p = (ri, di)" by (cases p)
  from Cons.prems(3) p obtain tk1 r1 tk2 where
    sd: "solveDistanceDependentVectors d (offsetMotionVector ri di tk) = Some tk1"
    and sa: "searchAngles fuel tk1 = Some (r1, tk2)"
    and rest: "(if noObsErr tk2 then Some (if r1 then True else nt, tk2)
                else searchOffsets fuel d offs (if r1 then True else nt) tk2) = Some (r, tk')"
    by (auto simp: Let_def split: option.splits)
  have f1: "tagFrame tk tk1"
    by (rule tagFrame_trans [OF offsetMotionVector_frame
            solveDistanceDependentVectors_frame [OF sd]])
  have h1: "holds Q tk1" by (rule tagFrame_holds [OF Cons.prems(1,2) f1])
  from searchAngles_holds [OF Cons.prems(1) h1 sa] tagFrame_sFrame [OF f1]
  have h2: "holds Q tk2" and s2: "sFrame tk tk2" by (auto intro: sFrame_trans)
  show ?case
  proof (cases "noObsErr tk2")
    case True
    with rest have "tk' = tk2" by simp
    with h2 s2 show ?thesis by simp
  next
    case False
    with rest have "searchOffsets fuel d offs (if r1 then True else nt) tk2 = Some (r, tk')"
      by simp
    from Cons.IH [OF Cons.prems(1) h2 this] s2 show ?thesis
      by (auto intro: sFrame_trans)
  qed
qed

lemma searchDistance_holds:
  assumes "stable Q" "holds Q tk" "searchDistance fuel d tk = Some (r, tk')"
  shows "holds Q tk' \<and> sFrame tk tk'"
proof -
  let ?tk0 = "(clearDTags tk)\<lparr>dAnyTag := False\<rparr>"
  have h0: "holds Q ?tk0" by (rule tagFrame_holds [OF assms(1,2) clearDTags_frame])
  from assms(3) have "searchOffsets fuel d offsets False ?tk0 = Some (r, tk')"
    by (simp add: searchDistance_def)
  from searchOffsets_holds [OF assms(1) h0 this] tagFrame_sFrame [OF clearDTags_frame [of tk]]
  show ?thesis by (auto intro: sFrame_trans)
qed

lemma dRange_Suc:
  "dRange (Suc n) d1 d2 age tk =
     (case searchDistance (Suc n) ((d1 + d2) * 0.5) tk of
        None \<Rightarrow> None
      | Some (r, tk1) \<Rightarrow>
          if r \<or> d2 - d1 > minDistanceStep
          then (case dRange n d1 ((d1 + d2) * 0.5) 0 tk1 of
                  None \<Rightarrow> None
                | Some tk2 \<Rightarrow> dRange n ((d1 + d2) * 0.5) d2 0 tk2)
          else if age < ageLimit
          then (case dRange n d1 ((d1 + d2) * 0.5) (age + 1) tk1 of
                  None \<Rightarrow> None
                | Some tk2 \<Rightarrow> dRange n ((d1 + d2) * 0.5) d2 (age + 1) tk2)
          else Some tk1)"
  by (simp only: dRange.simps Let_def)

lemma dRange_SomeE:
  assumes "dRange (Suc n) d1 d2 age tk = Some tk'"
  obtains (rec) r tk1 a tk2 where
      "searchDistance (Suc n) ((d1 + d2) * 0.5) tk = Some (r, tk1)"
      "dRange n d1 ((d1 + d2) * 0.5) a tk1 = Some tk2"
      "dRange n ((d1 + d2) * 0.5) d2 a tk2 = Some tk'"
    | (stop) r where
      "searchDistance (Suc n) ((d1 + d2) * 0.5) tk = Some (r, tk')"
  using assms unfolding dRange_Suc
  by (auto split: option.splits if_splits)

lemma dRange_holds:
  "stable Q \<Longrightarrow> holds Q tk \<Longrightarrow> dRange fuel d1 d2 age tk = Some tk' \<Longrightarrow>
     holds Q tk' \<and> sFrame tk tk'"
proof (induction fuel arbitrary: d1 d2 age tk tk')
  case 0
  then show ?case by (simp add: dRange.simps)
next
  case (Suc n)
  from Suc.prems(3) show ?case
  proof (cases rule: dRange_SomeE)
    case (rec r tk1 a tk2)
    from searchDistance_holds [OF Suc.prems(1,2) rec(1)]
    have a1: "holds Q tk1" "sFrame tk tk1" by simp_all
    from Suc.IH [OF Suc.prems(1) a1(1) rec(2)]
    have a2: "holds Q tk2" "sFrame tk1 tk2" by simp_all
    from Suc.IH [OF Suc.prems(1) a2(1) rec(3)] a1 a2
    show ?thesis by (auto intro: sFrame_trans)
  next
    case (stop r)
    from searchDistance_holds [OF Suc.prems(1,2) stop] show ?thesis .
  qed
qed

lemma scoreSetup_frame:
  "solver (scoreSetup tk) = solver tk \<and> cs (scoreSetup tk) = cs tk
   \<and> promotions (scoreSetup tk) = promotions tk
   \<and> classScores (scoreSetup tk) = classScores tk"
  by (auto simp: scoreSetup_def twoObs_def sov_def Let_def split: prod.splits)

lemma scoreOf_Some:
  "scoreOf sv i a b = Some x \<Longrightarrow> x = codeScore (classCompute sv ! i) a b"
  by (auto simp: scoreOf_def codeScore_def Let_def elemAt_def split: if_splits option.splits)

lemma scoreLoop_props:
  "scoreLoop i ss tk = Some tk' \<Longrightarrow>
     solver tk' = solver tk \<and> cs tk' = cs tk \<and> promotions tk' = promotions tk
     \<and> rms tk' = rms tk
     \<and> length (classScores tk') = length (classScores tk)
     \<and> (\<forall>k<length ss.
           classScores tk' ! (i + k) =
             \<lparr>Raw = codeScore (classCompute (solver tk) ! (i + k))
                      (sumAllInClass (ss ! k)) (sumAllNonClass (ss ! k)),
              NoId = codeScore (classCompute (solver tk) ! (i + k))
                       (sumUnkInClass (ss ! k)) (sumUnkNonClass (ss ! k))\<rparr>)
     \<and> (\<forall>k<i. classScores tk' ! k = classScores tk ! k)"
proof (induction ss arbitrary: i tk)
  case Nil
  then show ?case by simp
next
  case (Cons s rest)
  from Cons.prems obtain raw noid where
    raw: "scoreOf (solver tk) i (sumAllInClass s) (sumAllNonClass s) = Some raw"
    and noid: "scoreOf (solver tk) i (sumUnkInClass s) (sumUnkNonClass s) = Some noid"
    and len: "i < length (classScores tk)"
    and rec: "scoreLoop (i + 1) rest
                (tk\<lparr>classScores := (classScores tk)[i := \<lparr>Raw = raw, NoId = noid\<rparr>]\<rparr>)
              = Some tk'"
    by (auto split: option.splits if_splits)
  let ?tk1 = "tk\<lparr>classScores := (classScores tk)[i := \<lparr>Raw = raw, NoId = noid\<rparr>]\<rparr>"
  note ih = Cons.IH [OF rec]
  have fixed: "solver tk' = solver tk" "cs tk' = cs tk" "promotions tk' = promotions tk"
    "rms tk' = rms tk" "length (classScores tk') = length (classScores tk)"
    using ih by simp_all
  have below: "\<forall>k<i + 1. classScores tk' ! k = classScores ?tk1 ! k"
    using ih by simp
  have at_i: "classScores tk' ! i = \<lparr>Raw = raw, NoId = noid\<rparr>"
    using below len by simp
  have here: "classScores tk' ! (i + k) =
             \<lparr>Raw = codeScore (classCompute (solver tk) ! (i + k))
                      (sumAllInClass ((s # rest) ! k)) (sumAllNonClass ((s # rest) ! k)),
              NoId = codeScore (classCompute (solver tk) ! (i + k))
                       (sumUnkInClass ((s # rest) ! k)) (sumUnkNonClass ((s # rest) ! k))\<rparr>"
    if k: "k < length (s # rest)" for k
  proof (cases k)
    case 0
    with at_i scoreOf_Some [OF raw] scoreOf_Some [OF noid] show ?thesis by simp
  next
    case (Suc j)
    with k have "j < length rest" by simp
    with ih have "classScores tk' ! (i + 1 + j) =
             \<lparr>Raw = codeScore (classCompute (solver ?tk1) ! (i + 1 + j))
                      (sumAllInClass (rest ! j)) (sumAllNonClass (rest ! j)),
              NoId = codeScore (classCompute (solver ?tk1) ! (i + 1 + j))
                       (sumUnkInClass (rest ! j)) (sumUnkNonClass (rest ! j))\<rparr>"
      by blast
    with Suc show ?thesis by simp
  qed
  have before: "\<forall>k<i. classScores tk' ! k = classScores tk ! k"
    using below by simp
  from fixed here before show ?case by blast
qed

lemma score_holds:
  assumes "stable Q" "holds Q tk" "score fuel tk = Some tk'"
  shows "holds Q tk' \<and> solver tk' = solver tk \<and> length (cs tk') = length (cs tk)"
proof -
  let ?tk0 = "scoreSetup tk"
  from assms(3) obtain r1 tk1 r2 tk2 tk3 where
    s1: "searchDistance fuel min_distance ?tk0 = Some (r1, tk1)"
    and s2: "searchDistance fuel max_distance tk1 = Some (r2, tk2)"
    and s3: "dRange fuel min_distance max_distance 0 tk2 = Some tk3"
    and s4: "scoreLoop 0 (cs tk3) tk3 = Some tk'"
    by (auto simp: score_def Let_def split: option.splits)
  have h0: "holds Q ?tk0" using assms(2) scoreSetup_frame [of tk] by (simp add: holds_def)
  from searchDistance_holds [OF assms(1) h0 s1]
  have a1: "holds Q tk1" "sFrame ?tk0 tk1" by simp_all
  from searchDistance_holds [OF assms(1) a1(1) s2]
  have a2: "holds Q tk2" "sFrame tk1 tk2" by simp_all
  from dRange_holds [OF assms(1) a2(1) s3]
  have a3: "holds Q tk3" "sFrame tk2 tk3" by simp_all
  from a1 a2 a3 have "sFrame ?tk0 tk3" by (blast intro: sFrame_trans)
  with scoreSetup_frame [of tk] scoreLoop_props [OF s4] a3(1)
  show ?thesis by (simp add: holds_def sFrame_def)
qed

lemma map_of_store: "map_of (store m k b) = (map_of m)(k \<mapsto> b)"
  by (induction m) (auto simp: fun_eq_iff)

lemma lookup_store: "lookup (store m k True) j \<longleftrightarrow> j = k \<or> lookup m j"
  by (simp add: lookup_def map_of_store)

lemma stable_lengthsAgree: "stable lengthsAgree"
  unfolding stable_def lengthsAgree_def
  by (auto dest: list_all2_lengthD)

lemma stable_sumsNonneg: "stable sumsNonneg"
  unfolding stable_def
proof (intro conjI allI impI)
  fix sv css css' lg
  assume q: "sumsNonneg sv css lg" and eq: "list_all2 dScopeEq css css'"
  show "sumsNonneg sv css' lg"
    unfolding sumsNonneg_def
  proof (intro impI ballI)
    fix s' assume ok: "histOK (allM sv) \<and> histOK (unkM sv)" and "s' \<in> set css'"
    then obtain k where k: "k < length css'" "s' = css' ! k" by (auto simp: in_set_conv_nth)
    with eq have "dScopeEq (css ! k) s'" "css ! k \<in> set css"
      by (auto simp: list_all2_conv_all_nth)
    with q ok show "0 \<le> sumAllInClass s' \<and> 0 \<le> sumAllNonClass s'
                      \<and> 0 \<le> sumUnkInClass s' \<and> 0 \<le> sumUnkNonClass s'"
      by (auto simp: sumsNonneg_def dScopeEq_def)
  qed
next
  fix sv css lg cx i nt nt' s' lg'
  assume q: "sumsNonneg sv css lg" and cx: "cx < length css"
    and pb: "promoteBody sv cx (classCompute sv ! cx) i (nt, css ! cx, lg) = Some (nt', s', lg')"
  show "sumsNonneg sv (css[cx := s']) lg'"
    unfolding sumsNonneg_def
  proof (intro impI ballI)
    fix s assume ok: "histOK (allM sv) \<and> histOK (unkM sv)" and s: "s \<in> set (css[cx := s'])"
    from q ok cx have old: "0 \<le> sumAllInClass (css ! cx) \<and> 0 \<le> sumAllNonClass (css ! cx)
                      \<and> 0 \<le> sumUnkInClass (css ! cx) \<and> 0 \<le> sumUnkNonClass (css ! cx)"
      by (simp add: sumsNonneg_def)
    have new: "0 \<le> sumAllInClass s' \<and> 0 \<le> sumAllNonClass s'
                      \<and> 0 \<le> sumUnkInClass s' \<and> 0 \<le> sumUnkNonClass s'"
      using pb old ok unfolding promoteBody_def histOK_def elemAt_def
      by (auto split: if_splits option.splits prod.splits
               intro!: f64add_nonneg f64sub_nonneg)
    from s have "s = s' \<or> s \<in> set css" by (auto dest: set_update_subset_insert [THEN subsetD])
    with new q ok show "0 \<le> sumAllInClass s \<and> 0 \<le> sumAllNonClass s
                      \<and> 0 \<le> sumUnkInClass s \<and> 0 \<le> sumUnkNonClass s"
      by (auto simp: sumsNonneg_def)
  qed
qed

lemma promoteBody_log:
  assumes "promoteBody sv cx c i (nt, s, lg) = Some (nt', s', lg')"
  shows "lg' = lg @ (if lookup (dInClass s) i \<and> \<not> lookup (tagInClass s) i
                      then [(cx, i, True)] else [])
                @ (if lookup (dNonClass s) i \<and> \<not> lookup (tagNonClass s) i
                      then [(cx, i, False)] else [])"
    and "tagInClass s' = (if lookup (dInClass s) i \<and> \<not> lookup (tagInClass s) i
                          then store (tagInClass s) i True else tagInClass s)"
    and "tagNonClass s' = (if lookup (dNonClass s) i \<and> \<not> lookup (tagNonClass s) i
                          then store (tagNonClass s) i True else tagNonClass s)"
  using assms unfolding promoteBody_def
  by (auto split: if_splits option.splits prod.splits)

lemma stable_promotedOnce: "stable promotedOnce"
  unfolding stable_def
proof (intro conjI allI impI)
  fix sv css css' lg
  assume q: "promotedOnce sv css lg" and eq: "list_all2 dScopeEq css css'"
  have len: "length css' = length css" using eq by (auto dest: list_all2_lengthD)
  have same: "tagInClass (css' ! k) = tagInClass (css ! k)
      \<and> tagNonClass (css' ! k) = tagNonClass (css ! k)" if "k < length css" for k
    using eq that by (auto simp: list_all2_conv_all_nth dScopeEq_def)
  show "promotedOnce sv css' lg"
    using q len same unfolding promotedOnce_def by fastforce
next
  fix sv css lg cx i nt nt' s' lg'
  assume q: "promotedOnce sv css lg" and cx: "cx < length css"
    and pb: "promoteBody sv cx (classCompute sv ! cx) i (nt, css ! cx, lg) = Some (nt', s', lg')"
  let ?s = "css ! cx"
  note pl = promoteBody_log [OF pb]
  have notin_T: "(cx, i, True) \<notin> set lg" if "\<not> lookup (tagInClass ?s) i"
    using q that unfolding promotedOnce_def by fastforce
  have notin_F: "(cx, i, False) \<notin> set lg" if "\<not> lookup (tagNonClass ?s) i"
    using q that unfolding promotedOnce_def by fastforce
  have d: "distinct lg'"
    using q notin_T notin_F unfolding pl(1) promotedOnce_def by auto
  have keepT: "lookup (tagInClass s') j" if "lookup (tagInClass ?s) j" for j
    using that unfolding pl(2) by (simp add: lookup_store)
  have keepF: "lookup (tagNonClass s') j" if "lookup (tagNonClass ?s) j" for j
    using that unfolding pl(3) by (simp add: lookup_store)
  have old: "cx' < length (css[cx := s'])
      \<and> lookup (if b then tagInClass (css[cx := s'] ! cx') else tagNonClass (css[cx := s'] ! cx')) j"
    if "(cx', j, b) \<in> set lg" for cx' j b
  proof -
    from q that have a: "cx' < length css"
      "lookup (if b then tagInClass (css ! cx') else tagNonClass (css ! cx')) j"
      unfolding promotedOnce_def by fastforce+
    show ?thesis
    proof (cases "cx' = cx")
      case True
      with a cx keepT keepF show ?thesis by (cases b) simp_all
    next
      case False
      with a show ?thesis by (cases b) simp_all
    qed
  qed
  have newT: "lookup (tagInClass s') i"
    if "lookup (dInClass ?s) i \<and> \<not> lookup (tagInClass ?s) i"
    using that unfolding pl(2) by (simp add: lookup_store)
  have newF: "lookup (tagNonClass s') i"
    if "lookup (dNonClass ?s) i \<and> \<not> lookup (tagNonClass ?s) i"
    using that unfolding pl(3) by (simp add: lookup_store)
  have all: "cx' < length (css[cx := s'])
      \<and> lookup (if b then tagInClass (css[cx := s'] ! cx') else tagNonClass (css[cx := s'] ! cx')) j"
    if "(cx', j, b) \<in> set lg'" for cx' j b
  proof -
    from that consider "(cx', j, b) \<in> set lg"
      | "cx' = cx" "j = i" "b" "lookup (dInClass ?s) i \<and> \<not> lookup (tagInClass ?s) i"
      | "cx' = cx" "j = i" "\<not> b" "lookup (dNonClass ?s) i \<and> \<not> lookup (tagNonClass ?s) i"
      unfolding pl(1) by (auto split: if_splits)
    then show ?thesis
    proof cases
      case 1
      then show ?thesis by (rule old)
    next
      case 2
      with cx newT show ?thesis by simp
    next
      case 3
      with cx newF show ?thesis by simp
    qed
  qed
  show "promotedOnce sv (css[cx := s']) lg'"
    unfolding promotedOnce_def
  proof (intro conjI ballI)
    show "distinct lg'" by (rule d)
  next
    fix x assume x: "x \<in> set lg'"
    obtain cx' j b where xe: "x = (cx', j, b)" by (cases x)
    from all [of cx' j b] x xe
    show "case x of (cx', j, b) \<Rightarrow> cx' < length (css[cx := s'])
           \<and> lookup (if b then tagInClass (css[cx := s'] ! cx')
                       else tagNonClass (css[cx := s'] ! cx')) j"
      by simp
  qed
qed

lemma newTracklet_holds:
  "holds lengthsAgree (newTracklet s o2 vm rn)"
  "holds sumsNonneg (newTracklet s o2 vm rn)"
  "holds promotedOnce (newTracklet s o2 vm rn)"
  by (simp_all add: holds_def newTracklet_def lengthsAgree_def sumsNonneg_def promotedOnce_def
        newClassStats_def)

lemma quietFrame_refl [simp]: "quietFrame tk tk"
  by (simp add: quietFrame_def)

lemma quietFrame_trans: "quietFrame a b \<Longrightarrow> quietFrame b c \<Longrightarrow> quietFrame a c"
  by (auto simp: quietFrame_def intro: sFrame_trans dScopeEq_all2_trans)

lemma tagFrame_quietFrame: "tagFrame tk tk' \<Longrightarrow> quietFrame tk tk'"
  by (simp add: quietFrame_def tagFrame_sFrame) (simp add: tagFrame_def)

lemma H_total: "binsOK m \<Longrightarrow> \<exists>k. H m h = Some k"
  using H_spec [of m h] by (auto simp: binsOK_def)

lemma solveDistanceDependentVectors_total:
  assumes "binsOK (bins (solver tk))"
  shows "\<exists>tk'. solveDistanceDependentVectors d tk = Some tk'"
proof -
  let ?hm = "HMag (MulScalar (observerObjectUnit0 tk) d)
               (Add (sunObserver0 tk) (MulScalar (observerObjectUnit0 tk) d)) (vmag tk) d
               (sqrt (Square (Add (sunObserver0 tk) (MulScalar (observerObjectUnit0 tk) d))))"
  from H_total [OF assms, of ?hm] obtain k where "H (bins (solver tk)) ?hm = Some k" by blast
  then show ?thesis
    by (simp add: solveDistanceDependentVectors_def Let_def)
qed

lemma solveAngleRange_quiet:
  "invdtsq tk = 0 \<Longrightarrow> \<exists>a1 a2 tk'. solveAngleRange tk = (a1, a2, False, tk')"
  by (simp add: solveAngleRange_def Let_def)

lemma searchAngles_quiet:
  assumes "invdtsq tk = 0"
  shows "\<exists>tk'. searchAngles fuel tk = Some (False, tk') \<and> quietFrame tk tk'
           \<and> searchAnglesCalls tk' = searchAnglesCalls tk + 1"
proof -
  let ?tk0 = "tk\<lparr>searchAnglesCalls := searchAnglesCalls tk + 1\<rparr>"
  from assms have "invdtsq ?tk0 = 0" by simp
  from solveAngleRange_quiet [OF this] obtain a1 a2 tk1 where
    sar: "solveAngleRange ?tk0 = (a1, a2, False, tk1)" by blast
  note f = solveAngleRange_frame [OF sar]
  have "searchAngles fuel tk = Some (False, tk1)"
    using sar by (simp add: searchAngles_def)
  moreover have "quietFrame tk tk1"
    using tagFrame_quietFrame [OF f] by (simp add: quietFrame_def sFrame_def)
  moreover have "searchAnglesCalls tk1 = searchAnglesCalls tk + 1"
    using f by (simp add: tagFrame_def)
  ultimately show ?thesis by blast
qed

lemma searchOffsets_quiet:
  "invdtsq tk = 0 \<Longrightarrow> binsOK (bins (solver tk)) \<Longrightarrow>
     \<exists>tk'. searchOffsets fuel d offs nt tk = Some (nt, tk') \<and> quietFrame tk tk'"
proof (induction offs arbitrary: tk)
  case Nil
  then show ?case by simp
next
  case (Cons p offs)
  obtain ri di where p: "p = (ri, di)" by (cases p)
  let ?tk0 = "offsetMotionVector ri di tk"
  have f0: "tagFrame tk ?tk0" by (rule offsetMotionVector_frame)
  with Cons.prems have "binsOK (bins (solver ?tk0))" by (simp add: tagFrame_def)
  from solveDistanceDependentVectors_total [OF this] obtain tk1 where
    sd: "solveDistanceDependentVectors d ?tk0 = Some tk1" by blast
  note f1 = tagFrame_trans [OF f0 solveDistanceDependentVectors_frame [OF sd]]
  with Cons.prems have q1: "invdtsq tk1 = 0" "binsOK (bins (solver tk1))"
    by (simp_all add: tagFrame_def)
  from searchAngles_quiet [OF q1(1)] obtain tk2 where
    sa: "searchAngles fuel tk1 = Some (False, tk2)" and f2: "quietFrame tk1 tk2" by blast
  from f1 f2 have f: "quietFrame tk tk2"
    by (blast intro: quietFrame_trans tagFrame_quietFrame)
  with Cons.prems have q2: "invdtsq tk2 = 0" "binsOK (bins (solver tk2))"
    by (simp_all add: quietFrame_def sFrame_def)
  show ?case
  proof (cases "noObsErr tk2")
    case True
    with sd sa p f show ?thesis by simp
  next
    case False
    from Cons.IH [OF q2] obtain tk' where
      "searchOffsets fuel d offs nt tk2 = Some (nt, tk')" "quietFrame tk2 tk'" by blast
    with False sd sa p f show ?thesis
      by (auto intro: quietFrame_trans)
  qed
qed

lemma searchDistance_quiet:
  assumes "invdtsq tk = 0" "binsOK (bins (solver tk))"
  shows "\<exists>tk'. searchDistance fuel d tk = Some (False, tk') \<and> quietFrame tk tk'"
proof -
  let ?tk0 = "(clearDTags tk)\<lparr>dAnyTag := False\<rparr>"
  have f0: "tagFrame tk ?tk0" by (rule clearDTags_frame)
  with assms have "invdtsq ?tk0 = 0" "binsOK (bins (solver ?tk0))"
    by (simp_all add: tagFrame_def)
  from searchOffsets_quiet [OF this] obtain tk' where
    "searchOffsets fuel d offsets False ?tk0 = Some (False, tk')" "quietFrame ?tk0 tk'"
    by blast
  with tagFrame_quietFrame [OF f0] show ?thesis
    by (auto simp: searchDistance_def intro: quietFrame_trans)
qed

lemma quietFrame_keeps:
  "quietFrame tk tk' \<Longrightarrow> invdtsq tk = 0 \<Longrightarrow> binsOK (bins (solver tk)) \<Longrightarrow>
     invdtsq tk' = 0 \<and> binsOK (bins (solver tk'))"
  by (simp add: quietFrame_def sFrame_def)

lemma dRange_quiet_old:
  assumes "invdtsq tk = 0" "binsOK (bins (solver tk))"
    and "d2 - d1 \<le> minDistanceStep" "ageLimit \<le> age"
  shows "\<exists>tk'. dRange (Suc n) d1 d2 age tk = Some tk' \<and> quietFrame tk tk'"
proof -
  from searchDistance_quiet [OF assms(1,2)] obtain tk1 where
    "searchDistance (Suc n) ((d1 + d2) * 0.5) tk = Some (False, tk1)" "quietFrame tk tk1"
    by blast
  with assms(3,4) show ?thesis
    unfolding dRange_Suc by auto
qed

lemma dRange_quiet_narrow:
  assumes "invdtsq tk = 0" "binsOK (bins (solver tk))"
    and "d2 - d1 \<le> minDistanceStep"
  shows "\<exists>tk'. dRange (Suc (Suc n)) d1 d2 age tk = Some tk' \<and> quietFrame tk tk'"
proof (cases "age < ageLimit")
  case False
  then have "ageLimit \<le> age" by simp
  from dRange_quiet_old [OF assms this] show ?thesis .
next
  case True
  let ?m = "(d1 + d2) * 0.5"
  from searchDistance_quiet [OF assms(1,2)] obtain tk1 where
    s: "searchDistance (Suc (Suc n)) ?m tk = Some (False, tk1)" and f1: "quietFrame tk tk1"
    by blast
  note q1 = quietFrame_keeps [OF f1 assms(1,2)]
  have n1a: "?m - d1 \<le> minDistanceStep"
    using assms(3) unfolding minDistanceStep_def by argo
  have n1b: "d2 - ?m \<le> minDistanceStep"
    using assms(3) unfolding minDistanceStep_def by argo
  note n1 = n1a n1b
  have ag: "ageLimit \<le> age + 1" by (simp add: ageLimit_def)
  from dRange_quiet_old [OF conjunct1 [OF q1] conjunct2 [OF q1] n1(1) ag] obtain tk2 where
    r1: "dRange (Suc n) d1 ?m (age + 1) tk1 = Some tk2" and f2: "quietFrame tk1 tk2"
    by blast
  note q2 = quietFrame_keeps [OF f2 conjunct1 [OF q1] conjunct2 [OF q1]]
  from dRange_quiet_old [OF conjunct1 [OF q2] conjunct2 [OF q2] n1(2) ag] obtain tk3 where
    r2: "dRange (Suc n) ?m d2 (age + 1) tk2 = Some tk3" and f3: "quietFrame tk2 tk3"
    by blast
  have "dRange (Suc (Suc n)) d1 d2 age tk = Some tk3"
    unfolding dRange_Suc [of "Suc n"] using s assms(3) True r1 r2 by simp
  moreover from f1 f2 f3 have "quietFrame tk tk3" by (blast intro: quietFrame_trans)
  ultimately show ?thesis by blast
qed

lemma dRange_quiet:
  "invdtsq tk = 0 \<Longrightarrow> binsOK (bins (solver tk)) \<Longrightarrow>
   d2 - d1 \<le> minDistanceStep * 2 ^ k \<Longrightarrow>
     \<exists>tk'. dRange (Suc (Suc (k + n))) d1 d2 age tk = Some tk' \<and> quietFrame tk tk'"
proof (induction k arbitrary: d1 d2 age tk)
  case 0
  then have "d2 - d1 \<le> minDistanceStep" by simp
  from dRange_quiet_narrow [OF "0.prems"(1,2) this] show ?case by simp
next
  case (Suc k)
  show ?case
  proof (cases "d2 - d1 > minDistanceStep")
    case False
    then have "d2 - d1 \<le> minDistanceStep" by simp
    from dRange_quiet_narrow [OF Suc.prems(1,2) this] show ?thesis .
  next
    case True
    let ?m = "(d1 + d2) * 0.5"
    let ?f = "Suc (Suc (k + n))"
    from searchDistance_quiet [OF Suc.prems(1,2)] obtain tk1 where
      s: "searchDistance (Suc ?f) ?m tk = Some (False, tk1)" and f1: "quietFrame tk tk1"
      by blast
    note q1 = quietFrame_keeps [OF f1 Suc.prems(1,2)]
    have n1a: "?m - d1 \<le> minDistanceStep * 2 ^ k"
      using Suc.prems(3) unfolding minDistanceStep_def power_Suc by argo
    have n1b: "d2 - ?m \<le> minDistanceStep * 2 ^ k"
      using Suc.prems(3) unfolding minDistanceStep_def power_Suc by argo
    note n1 = n1a n1b
    from Suc.IH [OF conjunct1 [OF q1] conjunct2 [OF q1] n1(1)] obtain tk2 where
      r1: "dRange ?f d1 ?m 0 tk1 = Some tk2" and f2: "quietFrame tk1 tk2" by blast
    note q2 = quietFrame_keeps [OF f2 conjunct1 [OF q1] conjunct2 [OF q1]]
    from Suc.IH [OF conjunct1 [OF q2] conjunct2 [OF q2] n1(2)] obtain tk3 where
      r2: "dRange ?f ?m d2 0 tk2 = Some tk3" and f3: "quietFrame tk2 tk3" by blast
    have "dRange (Suc ?f) d1 d2 age tk = Some tk3"
      unfolding dRange_Suc [of ?f] using s True r1 r2 by simp
    moreover from f1 f2 f3 have "quietFrame tk tk3" by (blast intro: quietFrame_trans)
    ultimately show ?thesis by simp
  qed
qed

lemma stable_True: "stable (\<lambda>sv css lg. True)"
  by (simp add: stable_def)

lemma searchAngles_fixed:
  "searchAngles fuel tk = Some (r, tk') \<Longrightarrow>
     noObsErr tk' = noObsErr tk \<and> searchAnglesCalls tk' = searchAnglesCalls tk + 1"
  using searchAngles_holds [OF stable_True, of tk fuel r tk']
  by (simp add: holds_def sFrame_def)

lemma offsets_first: "offsets = (- 1, - 1) # tl offsets"
  by (simp add: offsets_def)

lemma specScore_range:
  assumes "0 \<le> a" "0 \<le> b"
  shows "0 \<le> specScore c a b \<and> specScore c a b \<le> 100"
proof (cases "a + b > 0")
  case True
  then have "a / (a + b) \<le> 1" using assms by simp
  then have "100 * (a / (a + b)) \<le> 100 * 1" by (intro mult_left_mono) simp_all
  moreover have "0 \<le> 100 * a / (a + b)" using assms True by simp
  ultimately show ?thesis using True by (simp add: specScore_def Let_def)
next
  case False
  then show ?thesis by (simp add: specScore_def Let_def)
qed

lemma codeScore_near:
  assumes "0 \<le> a" "0 \<le> b"
  shows "\<bar>codeScore c a b - specScore c a b\<bar> \<le> specScore c a b * (4 * u64)"
proof (cases "a + b > 0")
  case True
  let ?q = "100 * a / (a + b)"
  have D: "0 < f64add a b" unfolding f64add_def by (rule fl64_pos [OF True])
  have c: "codeScore c a b = f64div (f64mul 100 a) (f64add a b)"
    using D by (simp add: codeScore_def Let_def)
  have q: "specScore c a b = ?q" using True by (simp add: specScore_def Let_def)
  from f64_quotient [OF assms True]
  have "?q * (1 - 4 * u64) \<le> codeScore c a b" "codeScore c a b \<le> ?q * (1 + 4 * u64)"
    unfolding c by simp_all
  then have "?q - ?q * (4 * u64) \<le> codeScore c a b" "codeScore c a b \<le> ?q + ?q * (4 * u64)"
    by (simp_all only: right_diff_distrib distrib_left mult_1_right)
  then show ?thesis unfolding q by (simp only: abs_le_iff) linarith
next
  case False
  with assms have z: "a + b = 0" by simp
  have "0 \<le> specScore c a b * (4 * u64)"
    using specScore_range [OF assms, of c] u64_bounds(1) by (intro mult_nonneg_nonneg) simp_all
  moreover have "codeScore c a b = specScore c a b"
    using z by (simp add: codeScore_def specScore_def Let_def f64add_def)
  ultimately show ?thesis by simp
qed

lemma u64_times_4: "4 * u64 = 1 / 2 ^ 51"
  by (simp add: u64_def)

lemma codeScore_range:
  assumes "0 \<le> a" "0 \<le> b"
  shows "0 \<le> codeScore c a b \<and> codeScore c a b \<le> 100 * (1 + 1 / 2 ^ 51)"
proof -
  let ?q = "specScore c a b"
  note n = codeScore_near [OF assms, of c]
  note r = specScore_range [OF assms, of c]
  have u: "0 < 4 * u64" "4 * u64 < 1" by (simp_all add: u64_def)
  from n have lo: "?q - ?q * (4 * u64) \<le> codeScore c a b"
    and hi: "codeScore c a b \<le> ?q + ?q * (4 * u64)"
    by (simp_all only: abs_le_iff) linarith+
  have "0 \<le> ?q * (1 - 4 * u64)" using r u by (intro mult_nonneg_nonneg) simp_all
  then have "0 \<le> ?q - ?q * (4 * u64)" by (simp only: right_diff_distrib mult_1_right)
  with lo have c0: "0 \<le> codeScore c a b" by linarith
  have "?q * (1 + 4 * u64) \<le> 100 * (1 + 4 * u64)" using r u by (intro mult_right_mono) simp_all
  then have "?q + ?q * (4 * u64) \<le> 100 * (1 + 4 * u64)" by (simp only: distrib_left mult_1_right)
  with hi have "codeScore c a b \<le> 100 * (1 + 4 * u64)" by linarith
  with c0 show ?thesis by (simp only: u64_times_4)
qed

lemma scoreOf_code:
  "i < length (classCompute sv) \<Longrightarrow>
     scoreOf sv i a b = Some (codeScore (classCompute sv ! i) a b)"
  by (simp add: scoreOf_def codeScore_def Let_def elemAt_def)

lemma score_result:
  assumes "score fuel (newTracklet s o2 vm rn) = Some tk'"
  shows "solver tk' = s \<and> length (cs tk') = length (classCompute s)
     \<and> length (classScores tk') = length (classCompute s)
     \<and> (\<forall>k<length (classCompute s).
           classScores tk' ! k =
             \<lparr>Raw = codeScore (classCompute s ! k)
                      (sumAllInClass (cs tk' ! k)) (sumAllNonClass (cs tk' ! k)),
              NoId = codeScore (classCompute s ! k)
                       (sumUnkInClass (cs tk' ! k)) (sumUnkNonClass (cs tk' ! k))\<rparr>)"
proof -
  let ?nt = "newTracklet s o2 vm rn"
  let ?st = "scoreSetup ?nt"
  from assms obtain r1 tk1 r2 tk2 tk3 where
    s1: "searchDistance fuel min_distance ?st = Some (r1, tk1)"
    and s2: "searchDistance fuel max_distance tk1 = Some (r2, tk2)"
    and s3: "dRange fuel min_distance max_distance 0 tk2 = Some tk3"
    and s4: "scoreLoop 0 (cs tk3) tk3 = Some tk'"
    by (auto simp: score_def Let_def split: option.splits)
  have t: "holds (\<lambda>sv css lg. True) ?st" by (simp add: holds_def)
  from searchDistance_holds [OF stable_True t s1] have a1: "sFrame ?st tk1" by simp
  have t1: "holds (\<lambda>sv css lg. True) tk1" by (simp add: holds_def)
  from searchDistance_holds [OF stable_True t1 s2] have a2: "sFrame tk1 tk2" by simp
  have t2: "holds (\<lambda>sv css lg. True) tk2" by (simp add: holds_def)
  from dRange_holds [OF stable_True t2 s3] have a3: "sFrame tk2 tk3" by simp
  from a1 a2 a3 have "sFrame ?st tk3" by (blast intro: sFrame_trans)
  then have g3: "solver tk3 = solver ?st" "length (cs tk3) = length (cs ?st)"
    "classScores tk3 = classScores ?st"
    by (simp_all add: sFrame_def)
  have g0: "solver ?st = solver ?nt" "cs ?st = cs ?nt" "classScores ?st = classScores ?nt"
    using scoreSetup_frame [of ?nt] by simp_all
  have gn: "solver ?nt = s" "length (cs ?nt) = length (classCompute s)"
    "length (classScores ?nt) = length (classCompute s)"
    by (simp_all add: newTracklet_def)
  have f3: "solver tk3 = s" "length (cs tk3) = length (classCompute s)"
    "length (classScores tk3) = length (classCompute s)"
    by (simp_all only: g3 g0 gn)
  from scoreLoop_props [OF s4] f3 show ?thesis by simp
qed

lemma scoreOf_total:
  "i < length (classCompute sv) \<Longrightarrow> \<exists>x. scoreOf sv i a b = Some x"
  by (simp add: scoreOf_def Let_def elemAt_def)

lemma scoreSetup_calls:
  "searchAnglesCalls (scoreSetup tk) = searchAnglesCalls tk"
  by (auto simp: scoreSetup_def twoObs_def sov_def Let_def split: prod.splits)

lemma scoreLoop_total:
  "i + length ss \<le> length (classScores tk) \<Longrightarrow>
   i + length ss \<le> length (classCompute (solver tk)) \<Longrightarrow>
     \<exists>tk'. scoreLoop i ss tk = Some tk'"
proof (induction ss arbitrary: i tk)
  case Nil
  then show ?case by simp
next
  case (Cons s rest)
  from Cons.prems have i: "i < length (classScores tk)" "i < length (classCompute (solver tk))"
    by simp_all
  from scoreOf_total [OF i(2)] obtain raw where
    raw: "scoreOf (solver tk) i (sumAllInClass s) (sumAllNonClass s) = Some raw" by blast
  from scoreOf_total [OF i(2)] obtain noid where
    noid: "scoreOf (solver tk) i (sumUnkInClass s) (sumUnkNonClass s) = Some noid" by blast
  let ?tk1 = "tk\<lparr>classScores := (classScores tk)[i := \<lparr>Raw = raw, NoId = noid\<rparr>]\<rparr>"
  have "\<exists>tk'. scoreLoop (i + 1) rest ?tk1 = Some tk'"
    using Cons.prems by (intro Cons.IH) simp_all
  with raw noid i show ?case by simp
qed

lemma score_quiet:
  assumes q: "invdtsq (scoreSetup tk) = 0" "binsOK (bins (solver tk))"
    and len: "length (cs tk) = length (classCompute (solver tk))"
      "length (classScores tk) = length (classCompute (solver tk))"
  shows "\<exists>tk'. score (Suc (Suc (9 + n))) tk = Some tk'
           \<and> promotions tk' = promotions tk \<and> list_all2 dScopeEq (cs tk) (cs tk')"
proof -
  let ?st = "scoreSetup tk"
  let ?f = "Suc (Suc (9 + n))"
  note fr = scoreSetup_frame [of tk]
  have b0: "binsOK (bins (solver ?st))" using q(2) fr by simp
  from searchDistance_quiet [OF q(1) b0] obtain tk1 where
    s1: "searchDistance ?f min_distance ?st = Some (False, tk1)" and f1: "quietFrame ?st tk1"
    by blast
  note q1 = quietFrame_keeps [OF f1 q(1) b0]
  from searchDistance_quiet [OF conjunct1 [OF q1] conjunct2 [OF q1]] obtain tk2 where
    s2: "searchDistance ?f max_distance tk1 = Some (False, tk2)" and f2: "quietFrame tk1 tk2"
    by blast
  note q2 = quietFrame_keeps [OF f2 conjunct1 [OF q1] conjunct2 [OF q1]]
  have w: "max_distance - min_distance \<le> minDistanceStep * 2 ^ 9"
    by (simp add: max_distance_def min_distance_def minDistanceStep_def)
  from dRange_quiet [OF conjunct1 [OF q2] conjunct2 [OF q2] w] obtain tk3 where
    s3: "dRange ?f min_distance max_distance 0 tk2 = Some tk3" and f3: "quietFrame tk2 tk3"
    by blast
  from f1 f2 f3 have f: "quietFrame ?st tk3" by (blast intro: quietFrame_trans)
  then have g: "solver tk3 = solver tk" "classScores tk3 = classScores tk"
    "length (cs tk3) = length (cs tk)" "promotions tk3 = promotions tk"
    "list_all2 dScopeEq (cs tk) (cs tk3)"
    using fr by (simp_all add: quietFrame_def sFrame_def)
  have "\<exists>tk'. scoreLoop 0 (cs tk3) tk3 = Some tk'"
    using g len by (intro scoreLoop_total) simp_all
  then obtain tk' where s4: "scoreLoop 0 (cs tk3) tk3 = Some tk'" by blast
  have "score ?f tk = Some tk'"
    using s1 s2 s3 s4 by (simp add: score_def Let_def)
  moreover from scoreLoop_props [OF s4] g
  have "promotions tk' = promotions tk" "list_all2 dScopeEq (cs tk) (cs tk')" by simp_all
  ultimately show ?thesis by blast
qed

lemma wTracklet_quiet:
  "invdtsq (scoreSetup wTracklet) = 0" "binsOK (bins (solver wTracklet))"
  "noObsErr (scoreSetup wTracklet)"
  "length (cs wTracklet) = length (classCompute (solver wTracklet))"
  "length (classScores wTracklet) = length (classCompute (solver wTracklet))"
  "promotions wTracklet = []" "cs wTracklet = [newClassStats, newClassStats]"
  by (simp_all add: scoreSetup_def twoObs_def sov_def Let_def wTracklet_def newTracklet_def
        wOutcome_def wObs_def wSolver_def wBins_def binsOK_def clipErr_def
        split: prod.splits)

lemma histOK_wSolver: "histOK (allM wSolver)" "histOK (unkM wSolver)"
  by (simp_all add: histOK_def wSolver_def)

subsection \<open>The budget\<close>

text \<open>One level of \<open>aRange\<close> and of \<open>dRange\<close>, branch by branch.\<close>

lemma aRange_rec0:
  assumes "tagAngle (aMid ang1 ang2 tk) (tk\<lparr>rndCalls := rndCalls tk + 1\<rparr>) = Some (t, tk2)"
    and "t \<or> (ang2 - ang1) / 3 > minAngleStep"
  shows "aRange (Suc n) ang1 ang2 age tk =
           (case aRange n ang1 (aMid ang1 ang2 tk) 0 tk2 of
              None \<Rightarrow> None
            | Some tk3 \<Rightarrow> aRange n (aMid ang1 ang2 tk) ang2 0 tk3)"
  unfolding aRange_Suc using assms by simp

lemma aRange_rec1:
  assumes "tagAngle (aMid ang1 ang2 tk) (tk\<lparr>rndCalls := rndCalls tk + 1\<rparr>) = Some (t, tk2)"
    and "\<not> (t \<or> (ang2 - ang1) / 3 > minAngleStep)" and "age < ageLimit"
  shows "aRange (Suc n) ang1 ang2 age tk =
           (case aRange n ang1 (aMid ang1 ang2 tk) (age + 1) tk2 of
              None \<Rightarrow> None
            | Some tk3 \<Rightarrow> aRange n (aMid ang1 ang2 tk) ang2 (age + 1) tk3)"
  unfolding aRange_Suc using assms by simp

lemma aRange_stop:
  assumes "tagAngle (aMid ang1 ang2 tk) (tk\<lparr>rndCalls := rndCalls tk + 1\<rparr>) = Some (t, tk2)"
    and "\<not> (t \<or> (ang2 - ang1) / 3 > minAngleStep)" and "\<not> age < ageLimit"
  shows "aRange (Suc n) ang1 ang2 age tk = Some tk2"
  unfolding aRange_Suc using assms by simp

lemma aRange_None:
  assumes "tagAngle (aMid ang1 ang2 tk) (tk\<lparr>rndCalls := rndCalls tk + 1\<rparr>) = None"
  shows "aRange (Suc n) ang1 ang2 age tk = None"
  unfolding aRange_Suc using assms by simp

lemma dRange_rec0:
  assumes "searchDistance (Suc n) ((d1 + d2) * 0.5) tk = Some (r, tk1)"
    and "r \<or> d2 - d1 > minDistanceStep"
  shows "dRange (Suc n) d1 d2 age tk =
           (case dRange n d1 ((d1 + d2) * 0.5) 0 tk1 of
              None \<Rightarrow> None
            | Some tk2 \<Rightarrow> dRange n ((d1 + d2) * 0.5) d2 0 tk2)"
  unfolding dRange_Suc using assms by simp

lemma dRange_rec1:
  assumes "searchDistance (Suc n) ((d1 + d2) * 0.5) tk = Some (r, tk1)"
    and "\<not> (r \<or> d2 - d1 > minDistanceStep)" and "age < ageLimit"
  shows "dRange (Suc n) d1 d2 age tk =
           (case dRange n d1 ((d1 + d2) * 0.5) (age + 1) tk1 of
              None \<Rightarrow> None
            | Some tk2 \<Rightarrow> dRange n ((d1 + d2) * 0.5) d2 (age + 1) tk2)"
  unfolding dRange_Suc using assms by simp

lemma dRange_stop:
  assumes "searchDistance (Suc n) ((d1 + d2) * 0.5) tk = Some (r, tk1)"
    and "\<not> (r \<or> d2 - d1 > minDistanceStep)" and "\<not> age < ageLimit"
  shows "dRange (Suc n) d1 d2 age tk = Some tk1"
  unfolding dRange_Suc using assms by simp

lemma dRange_None:
  assumes "searchDistance (Suc n) ((d1 + d2) * 0.5) tk = None"
  shows "dRange (Suc n) d1 d2 age tk = None"
  unfolding dRange_Suc using assms by simp

text \<open>A search that returns within a budget returns the same within every larger one.\<close>

lemma seq_mono:
  assumes "(case f of None \<Rightarrow> None | Some x \<Rightarrow> g x) = Some r"
    and "\<And>x. f = Some x \<Longrightarrow> f' = Some x"
    and "\<And>x. f = Some x \<Longrightarrow> g x = Some r \<Longrightarrow> g' x = Some r"
  shows "(case f' of None \<Rightarrow> None | Some x \<Rightarrow> g' x) = Some r"
  using assms by (cases f) auto

lemma aRange_mono:
  "aRange n ang1 ang2 age tk = Some r \<Longrightarrow> aRange (n + k) ang1 ang2 age tk = Some r"
proof (induction n arbitrary: ang1 ang2 age tk r)
  case 0
  then show ?case by (simp add: aRange.simps)
next
  case (Suc n)
  have e: "Suc n + k = Suc (n + k)" by simp
  let ?T = "tagAngle (aMid ang1 ang2 tk) (tk\<lparr>rndCalls := rndCalls tk + 1\<rparr>)"
  show ?case
  proof (cases ?T)
    case None
    from Suc.prems show ?thesis unfolding aRange_None [OF None] by simp
  next
    case (Some pr)
    obtain t tk2 where pr: "pr = (t, tk2)" by (cases pr)
    note ta = Some [unfolded pr]
    have s: "(case aRange (n + k) ang1 (aMid ang1 ang2 tk) a tk2 of None \<Rightarrow> None
             | Some tk3 \<Rightarrow> aRange (n + k) (aMid ang1 ang2 tk) ang2 a tk3) = Some r"
      if "(case aRange n ang1 (aMid ang1 ang2 tk) a tk2 of None \<Rightarrow> None
             | Some tk3 \<Rightarrow> aRange n (aMid ang1 ang2 tk) ang2 a tk3) = Some r" for a
      using that by (rule seq_mono) (auto intro: Suc.IH)
    show ?thesis
    proof (cases "t \<or> (ang2 - ang1) / 3 > minAngleStep")
      case True
      from Suc.prems show ?thesis
        unfolding e aRange_rec0 [OF ta True] by (rule s)
    next
      case False
      show ?thesis
      proof (cases "age < ageLimit")
        case True
        from Suc.prems show ?thesis
          unfolding e aRange_rec1 [OF ta False True] by (rule s)
      next
        case nl: False
        from Suc.prems show ?thesis
          unfolding e aRange_stop [OF ta False nl] .
      qed
    qed
  qed
qed

lemma searchAngles_mono:
  "searchAngles n tk = Some r \<Longrightarrow> searchAngles (n + k) tk = Some r"
  unfolding searchAngles_def
  by (auto split: prod.splits option.splits if_splits dest: aRange_mono [where k = k])

lemma searchOffsets_mono:
  "searchOffsets n d offs nt tk = Some r \<Longrightarrow> searchOffsets (n + k) d offs nt tk = Some r"
proof (induction offs arbitrary: nt tk)
  case Nil
  then show ?case by simp
next
  case (Cons p offs)
  obtain ri di where p: "p = (ri, di)" by (cases p)
  from Cons.prems p obtain tk1 r1 tk2 where
    sd: "solveDistanceDependentVectors d (offsetMotionVector ri di tk) = Some tk1"
    and sa: "searchAngles n tk1 = Some (r1, tk2)"
    and rest: "(if noObsErr tk2 then Some (if r1 then True else nt, tk2)
                else searchOffsets n d offs (if r1 then True else nt) tk2) = Some r"
    by (auto simp: Let_def split: option.splits)
  note sa' = searchAngles_mono [OF sa, of k]
  show ?case
  proof (cases "noObsErr tk2")
    case True
    with rest sd sa' p show ?thesis by (simp add: Let_def)
  next
    case False
    with rest have "searchOffsets n d offs (if r1 then True else nt) tk2 = Some r" by simp
    from Cons.IH [OF this] False sd sa' p show ?thesis by (simp add: Let_def)
  qed
qed

lemma searchDistance_mono:
  "searchDistance n d tk = Some r \<Longrightarrow> searchDistance (n + k) d tk = Some r"
  unfolding searchDistance_def by (rule searchOffsets_mono)

lemma dRange_mono:
  "dRange n d1 d2 age tk = Some r \<Longrightarrow> dRange (n + k) d1 d2 age tk = Some r"
proof (induction n arbitrary: d1 d2 age tk r)
  case 0
  then show ?case by (simp add: dRange.simps)
next
  case (Suc n)
  have e: "Suc n + k = Suc (n + k)" by simp
  show ?case
  proof (cases "searchDistance (Suc n) ((d1 + d2) * 0.5) tk")
    case None
    from Suc.prems show ?thesis unfolding dRange_None [OF None] by simp
  next
    case (Some pr)
    obtain r1 tk1 where pr: "pr = (r1, tk1)" by (cases pr)
    note sd = Some [unfolded pr]
    from searchDistance_mono [OF sd, of k]
    have sd': "searchDistance (Suc (n + k)) ((d1 + d2) * 0.5) tk = Some (r1, tk1)" by simp
    have s: "(case dRange (n + k) d1 ((d1 + d2) * 0.5) a tk1 of None \<Rightarrow> None
             | Some tk2 \<Rightarrow> dRange (n + k) ((d1 + d2) * 0.5) d2 a tk2) = Some r"
      if "(case dRange n d1 ((d1 + d2) * 0.5) a tk1 of None \<Rightarrow> None
             | Some tk2 \<Rightarrow> dRange n ((d1 + d2) * 0.5) d2 a tk2) = Some r" for a
      using that by (rule seq_mono) (auto intro: Suc.IH)
    show ?thesis
    proof (cases "r1 \<or> d2 - d1 > minDistanceStep")
      case True
      from Suc.prems show ?thesis
        unfolding e dRange_rec0 [OF sd True] dRange_rec0 [OF sd' True] by (rule s)
    next
      case False
      show ?thesis
      proof (cases "age < ageLimit")
        case True
        from Suc.prems show ?thesis
          unfolding e dRange_rec1 [OF sd False True] dRange_rec1 [OF sd' False True]
          by (rule s)
      next
        case nl: False
        from Suc.prems show ?thesis
          unfolding e dRange_stop [OF sd False nl] dRange_stop [OF sd' False nl] .
      qed
    qed
  qed
qed

lemma score_mono:
  assumes "score n tk = Some r"
  shows "score (n + k) tk = Some r"
proof -
  from assms obtain r1 tk1 r2 tk2 tk3 where
    d1: "searchDistance n min_distance (scoreSetup tk) = Some (r1, tk1)"
    and d2: "searchDistance n max_distance tk1 = Some (r2, tk2)"
    and d3: "dRange n min_distance max_distance 0 tk2 = Some tk3"
    and d4: "scoreLoop 0 (cs tk3) tk3 = Some r"
    by (auto simp: score_def Let_def split: option.splits)
  from searchDistance_mono [OF d1, of k] searchDistance_mono [OF d2, of k]
    dRange_mono [OF d3, of k] d4
  show ?thesis by (simp add: score_def Let_def)
qed

subsection \<open>Termination\<close>

text \<open>Tagging a bin that a tag set does not hold lowers its count of free bins.\<close>

lemma keysOn_store: "keysOn (store m k True) = insert k (keysOn m)"
  by (auto simp: keysOn_def lookup_store)

lemma freeIn_le: "freeIn N m \<le> N"
proof -
  have "card ({..<N} - keysOn m) \<le> card {..<N}" by (intro card_mono) auto
  then show ?thesis by (simp add: freeIn_def)
qed

lemma freeIn_store_less:
  assumes "k < N" "\<not> lookup m k"
  shows "freeIn N (store m k True) < freeIn N m"
proof -
  have k: "k \<in> {..<N} - keysOn m" using assms by (simp add: keysOn_def)
  have "{..<N} - keysOn (store m k True) = ({..<N} - keysOn m) - {k}"
    by (auto simp: keysOn_store)
  moreover have "card (({..<N} - keysOn m) - {k}) < card ({..<N} - keysOn m)"
    using k by (intro card_Diff1_less) simp_all
  ultimately show ?thesis by (simp add: freeIn_def)
qed

lemma store_keys: "p \<in> set (store m k b) \<Longrightarrow> fst p = k \<or> p \<in> set m"
  by (induction m) (auto split: if_splits)

lemma sum_list_update_less:
  assumes "cx < length xs" "(y::nat) < xs ! cx"
  shows "sum_list (xs[cx := y]) < sum_list xs"
proof -
  have "xs ! cx \<le> sum_list xs" using assms(1) by (rule elem_le_sum_list)
  with assms show ?thesis by (simp add: sum_list_update)
qed

lemma sum_list_update_le:
  assumes "cx < length xs" "(y::nat) \<le> xs ! cx"
  shows "sum_list (xs[cx := y]) \<le> sum_list xs"
proof -
  have "xs ! cx \<le> sum_list xs" using assms(1) by (rule elem_le_sum_list)
  with assms show ?thesis by (simp add: sum_list_update)
qed

lemma fsum_update_less:
  fixes f :: "classStats \<Rightarrow> nat"
  assumes "cx < length css" "f s' < f (css ! cx)"
  shows "sum_list (map f (css[cx := s'])) < sum_list (map f css)"
proof -
  have "map f (css[cx := s']) = (map f css)[cx := f s']" by (rule map_update)
  with sum_list_update_less [of cx "map f css" "f s'"] assms show ?thesis by simp
qed

lemma fsum_update_le:
  fixes f :: "classStats \<Rightarrow> nat"
  assumes "cx < length css" "f s' \<le> f (css ! cx)"
  shows "sum_list (map f (css[cx := s'])) \<le> sum_list (map f css)"
proof -
  have "map f (css[cx := s']) = (map f css)[cx := f s']" by (rule map_update)
  with sum_list_update_le [of cx "map f css" "f s'"] assms show ?thesis by simp
qed

lemma fsum_le:
  fixes f :: "classStats \<Rightarrow> nat"
  assumes "\<And>s. f s \<le> b"
  shows "sum_list (map f css) \<le> length css * b"
  using assms by (induction css) (auto intro: add_mono)

lemma dScopeEq_tFree:
  "list_all2 dScopeEq css css' \<Longrightarrow> map (tFreeOf N) css' = map (tFreeOf N) css"
  by (induction rule: list_all2_induct) (auto simp: dScopeEq_def tFreeOf_def)

lemma tagFrame_tFree:
  assumes "tagFrame tk tk'"
  shows "tFree tk' = tFree tk"
proof -
  from assms have "solver tk' = solver tk" "list_all2 dScopeEq (cs tk) (cs tk')"
    by (simp_all add: tagFrame_def)
  then show ?thesis by (simp add: tFree_def dScopeEq_tFree)
qed

lemma sFrame_wfBase: "wfBase tk \<Longrightarrow> sFrame tk tk' \<Longrightarrow> wfBase tk'"
  by (simp add: wfBase_def sFrame_def)

lemma dFree_le: "dFree tk \<le> length (cs tk) * (2 * modelSize (bins (solver tk)))"
  unfolding dFree_def
  by (rule fsum_le) (use freeIn_le in \<open>simp add: dFreeOf_def add_mono mult_2\<close>)

lemma tFree_le: "tFree tk \<le> length (cs tk) * (2 * modelSize (bins (solver tk)))"
  unfolding tFree_def
  by (rule fsum_le) (use freeIn_le in \<open>simp add: tFreeOf_def add_mono mult_2\<close>)

lemma tagClasses_free:
  "tagClasses bx q e i h cx ccs css nt = Some (nt', css') \<Longrightarrow> bx < N \<Longrightarrow>
     sum_list (map (dFreeOf N) css') \<le> sum_list (map (dFreeOf N) css)
     \<and> (nt' \<longrightarrow> nt \<or> sum_list (map (dFreeOf N) css') < sum_list (map (dFreeOf N) css))"
proof (induction ccs arbitrary: cx css nt)
  case Nil
  then show ?case by simp
next
  case (Cons c rest)
  from Cons.prems have ok: "cx < length css" "c < length CList"
    by (auto split: if_splits)
  let ?s = "css ! cx"
  let ?in = "css[cx := ?s\<lparr>dInClass := store (dInClass ?s) bx True\<rparr>]"
  let ?non = "css[cx := ?s\<lparr>dNonClass := store (dNonClass ?s) bx True\<rparr>]"
  from Cons.prems ok consider
      (a) "\<not> lookup (dInClass ?s) bx"
          "tagClasses bx q e i h (cx + 1) rest ?in True = Some (nt', css')"
    | (b) "\<not> lookup (dNonClass ?s) bx"
          "tagClasses bx q e i h (cx + 1) rest ?non True = Some (nt', css')"
    | (c) "tagClasses bx q e i h (cx + 1) rest css nt = Some (nt', css')"
    by (auto simp: Let_def split: if_splits)
  then show ?case
  proof cases
    case a
    have "dFreeOf N (?s\<lparr>dInClass := store (dInClass ?s) bx True\<rparr>) < dFreeOf N ?s"
      using freeIn_store_less [OF Cons.prems(2) a(1)] by (simp add: dFreeOf_def)
    from fsum_update_less [OF ok(1), of "dFreeOf N", OF this]
    have lt: "sum_list (map (dFreeOf N) ?in) < sum_list (map (dFreeOf N) css)" .
    from Cons.IH [OF a(2) Cons.prems(2)] lt show ?thesis by linarith
  next
    case b
    have "dFreeOf N (?s\<lparr>dNonClass := store (dNonClass ?s) bx True\<rparr>) < dFreeOf N ?s"
      using freeIn_store_less [OF Cons.prems(2) b(1)] by (simp add: dFreeOf_def)
    from fsum_update_less [OF ok(1), of "dFreeOf N", OF this]
    have lt: "sum_list (map (dFreeOf N) ?non) < sum_list (map (dFreeOf N) css)" .
    from Cons.IH [OF b(2) Cons.prems(2)] lt show ?thesis by linarith
  next
    case c
    from Cons.IH [OF c Cons.prems(2)] show ?thesis .
  qed
qed

lemma tagClasses_total:
  "cx + length ccs \<le> length css \<Longrightarrow> \<forall>c\<in>set ccs. c < length CList \<Longrightarrow>
     \<exists>r. tagClasses bx q e i h cx ccs css nt = Some r"
proof (induction ccs arbitrary: cx css nt)
  case Nil
  then show ?case by simp
next
  case (Cons c rest)
  have ih: "\<exists>r. tagClasses bx q e i h (cx + 1) rest css2 nt2 = Some r"
    if "length css2 = length css" for css2 nt2
    using Cons.prems that by (intro Cons.IH) simp_all
  from Cons.prems have ok: "\<not> (length css \<le> cx \<or> length CList \<le> c)" by auto
  show ?case
    using ok ih by (simp add: Let_def)
qed

lemma tagAngle_SomeE:
  assumes "tagAngle an tk = Some (t, tk')"
  obtains (still) v where "\<not> t" "tk' = tk\<lparr>v_vec := v\<rparr>"
    | (quiet) v hv0 where "\<not> t" "tk' = tk\<lparr>v_vec := v, hv_vec := hv0\<rparr>"
    | (tag) v hv0 q e i iq ie ii css where
        "Qei (bins (solver tk)) q e i = Some (iq, ie, ii, True)"
        "tagClasses (Mx (bins (solver tk)) iq ie ii (hmagBin tk)) q e i (hmag tk) 0
           (classCompute (solver tk)) (cs tk) False = Some (t, css)"
        "tk' = (if t
                then tk\<lparr>v_vec := v, hv_vec := hv0, cs := css, dAnyTag := True,
                        dTag := store (dTag tk) (Mx (bins (solver tk)) iq ie ii (hmagBin tk)) True\<rparr>
                else tk\<lparr>v_vec := v, hv_vec := hv0, cs := css\<rparr>)"
proof -
  let ?v = "MulScalar (Sub (MulScalar (observerObjectUnit1 tk)
                 (observer1Object0Mag tk * sin an / sin (pi - an - tz tk)))
               (observer1Object0 tk)) (invdt tk * astro_InvK)"
  obtain a e i hvo where ae: "AeiHv (sunObject0 tk) ?v (sunObject0Mag tk) = (a, e, i, hvo)"
    by (metis prod_cases4)
  show ?thesis
  proof (cases hvo)
    case None
    with assms ae have "\<not> t" "tk' = tk\<lparr>v_vec := ?v\<rparr>"
      by (auto simp add: tagAngle_def Let_def)
    then show ?thesis by (rule still)
  next
    case (Some hv)
    from assms ae Some obtain iq ie ii inModel where
      qe: "Qei (bins (solver tk)) (a * (1 - e)) e i = Some (iq, ie, ii, inModel)"
      by (auto simp: tagAngle_def Let_def split: option.splits)
    show ?thesis
    proof (cases inModel)
      case False
      with assms ae Some qe have "\<not> t" "tk' = tk\<lparr>v_vec := ?v, hv_vec := hv\<rparr>"
        by (auto simp add: tagAngle_def Let_def)
      then show ?thesis by (rule quiet)
    next
      case True
      let ?bx = "Mx (bins (solver tk)) iq ie ii (hmagBin tk)"
      from assms ae Some qe True obtain css where
        tc: "tagClasses ?bx (a * (1 - e)) e i (hmag tk) 0
               (classCompute (solver tk)) (cs tk) False = Some (t, css)"
        and r: "tk' = (if t
                then tk\<lparr>v_vec := ?v, hv_vec := hv, cs := css, dAnyTag := True,
                        dTag := store (dTag tk) ?bx True\<rparr>
                else tk\<lparr>v_vec := ?v, hv_vec := hv, cs := css\<rparr>)"
        by (auto simp: tagAngle_def Let_def split: option.splits)
      from qe True have "Qei (bins (solver tk)) (a * (1 - e)) e i = Some (iq, ie, ii, True)"
        by simp
      from this tc r show ?thesis by (rule tag)
    qed
  qed
qed

lemma tagAngle_total:
  assumes "wfTags tk"
  shows "\<exists>t tk'. tagAngle an tk = Some (t, tk')"
proof -
  let ?v = "MulScalar (Sub (MulScalar (observerObjectUnit1 tk)
                 (observer1Object0Mag tk * sin an / sin (pi - an - tz tk)))
               (observer1Object0 tk)) (invdt tk * astro_InvK)"
  from assms have sv: "wfSolver (solver tk)"
    and len: "length (cs tk) = length (classCompute (solver tk))"
    by (simp_all add: wfTags_def wfBase_def)
  obtain a e i hvo where ae: "AeiHv (sunObject0 tk) ?v (sunObject0Mag tk) = (a, e, i, hvo)"
    by (metis prod_cases4)
  show ?thesis
  proof (cases hvo)
    case None
    with ae show ?thesis by (auto simp add: tagAngle_def Let_def)
  next
    case (Some hv)
    from sv Qei_spec [of "bins (solver tk)" "a * (1 - e)" e i] obtain iq ie ii inModel where
      qe: "Qei (bins (solver tk)) (a * (1 - e)) e i = Some (iq, ie, ii, inModel)"
      by (auto simp: wfSolver_def)
    have "\<exists>r. tagClasses (Mx (bins (solver tk)) iq ie ii (hmagBin tk)) (a * (1 - e)) e i (hmag tk) 0
               (classCompute (solver tk)) (cs tk) False = Some r"
      using sv len by (intro tagClasses_total) (simp_all add: wfSolver_def)
    then obtain nt css where
      "tagClasses (Mx (bins (solver tk)) iq ie ii (hmagBin tk)) (a * (1 - e)) e i (hmag tk) 0
               (classCompute (solver tk)) (cs tk) False = Some (nt, css)" by auto
    with ae Some qe show ?thesis by (auto simp add: tagAngle_def Let_def)
  qed
qed

lemma tagAngle_wf:
  assumes wf: "wfTags tk" and ta: "tagAngle an tk = Some (t, tk')"
  shows "wfTags tk' \<and> dFree tk' \<le> dFree tk \<and> (t \<longrightarrow> dFree tk' < dFree tk)"
  using ta
proof (cases rule: tagAngle_SomeE)
  case (still v)
  with wf show ?thesis by (simp add: wfTags_def wfBase_def dFree_def)
next
  case (quiet v hv0)
  with wf show ?thesis by (simp add: wfTags_def wfBase_def dFree_def)
next
  case (tag v hv0 q e i iq ie ii css)
  let ?N = "modelSize (bins (solver tk))"
  let ?bx = "Mx (bins (solver tk)) iq ie ii (hmagBin tk)"
  from wf have sv: "wfSolver (solver tk)" by (simp add: wfTags_def wfBase_def)
  from sv Qei_spec [of "bins (solver tk)" q e i] tag(1)
  have "firstBelow q (QPart (bins (solver tk))) iq \<and> firstBelow e (EPart (bins (solver tk))) ie
      \<and> firstBelow i (IPart (bins (solver tk))) ii"
    by (auto simp: wfSolver_def)
  with wf have bx: "?bx < ?N"
    by (intro Mx_less) (simp_all add: firstBelow_def wfTags_def)
  from tagClasses_free [OF tag(2) bx]
  have fr: "sum_list (map (dFreeOf ?N) css) \<le> sum_list (map (dFreeOf ?N) (cs tk))"
    "t \<longrightarrow> sum_list (map (dFreeOf ?N) css) < sum_list (map (dFreeOf ?N) (cs tk))"
    by simp_all
  from tagClasses_frame [OF tag(2)] have len: "length css = length (cs tk)"
    by (auto dest: list_all2_lengthD)
  show ?thesis
  proof (cases t)
    case True
    with tag(3) have tk': "tk' = tk\<lparr>v_vec := v, hv_vec := hv0, cs := css, dAnyTag := True,
                        dTag := store (dTag tk) ?bx True\<rparr>" by simp
    have keys: "\<forall>p\<in>set (dTag tk'). fst p < ?N"
      using wf bx by (auto simp: tk' wfTags_def dest!: store_keys)
    from wf len keys fr True show ?thesis
      by (simp add: tk' wfTags_def wfBase_def dFree_def)
  next
    case False
    with tag(3) have tk': "tk' = tk\<lparr>v_vec := v, hv_vec := hv0, cs := css\<rparr>" by simp
    from wf len fr False show ?thesis
      by (simp add: tk' wfTags_def wfBase_def dFree_def)
  qed
qed

text \<open>\<open>aRange\<close> returns within the budget \<open>aFuel\<close>: the sum of \<open>dFree\<close> and the span of the
  interval falls at every level that is not the aged one.\<close>

lemma span_mono: "x \<le> y \<Longrightarrow> span x \<le> span y"
  unfolding span_def by (intro nat_mono ceiling_mono) simp

lemma span_nonpos: "x \<le> 0 \<Longrightarrow> span x = 0"
  unfolding span_def by (simp add: ceiling_le_zero)

lemma span_step:
  assumes "x' + 1 / 10 \<le> x" "0 < x"
  shows "span x' < span x"
proof -
  from assms(1) have "10 * x' + 1 \<le> 10 * x" by simp
  then have "\<lceil>10 * x' + 1\<rceil> \<le> \<lceil>10 * x\<rceil>" by (rule ceiling_mono)
  then have a: "\<lceil>10 * x'\<rceil> < \<lceil>10 * x\<rceil>" by simp
  from assms(2) have "0 < \<lceil>10 * x\<rceil>" by (simp add: ceiling_less_iff)
  with a show ?thesis unfolding span_def by (simp add: zless_nat_conj)
qed

lemma thirds_le:
  assumes "0 \<le> r" "r \<le> 1"
  shows "span (w / 3 * (1 + r)) \<le> span w" "span (w / 3 * (2 - r)) \<le> span w"
proof -
  show "span (w / 3 * (1 + r)) \<le> span w"
  proof (cases "0 \<le> w")
    case True
    then have "w / 3 * (1 + r) \<le> w / 3 * 2" using assms by (intro mult_left_mono) simp_all
    also have "\<dots> \<le> w" using True by simp
    finally show ?thesis by (rule span_mono)
  next
    case False
    then have "w / 3 * (1 + r) \<le> 0" using assms by (simp add: mult_le_0_iff)
    then show ?thesis by (simp add: span_nonpos)
  qed
  show "span (w / 3 * (2 - r)) \<le> span w"
  proof (cases "0 \<le> w")
    case True
    then have "w / 3 * (2 - r) \<le> w / 3 * 2" using assms by (intro mult_left_mono) simp_all
    also have "\<dots> \<le> w" using True by simp
    finally show ?thesis by (rule span_mono)
  next
    case False
    then have "w / 3 * (2 - r) \<le> 0" using assms by (simp add: mult_le_0_iff)
    then show ?thesis by (simp add: span_nonpos)
  qed
qed

lemma thirds_less:
  assumes "0 \<le> r" "r \<le> 1" "w / 3 > 1 / 10"
  shows "span (w / 3 * (1 + r)) < span w" "span (w / 3 * (2 - r)) < span w"
proof -
  from assms(3) have w: "0 < w" "0 \<le> w / 3" by simp_all
  have b: "w / 3 * 2 + 1 / 10 \<le> w" using assms(3) by linarith
  have a1: "w / 3 * (1 + r) \<le> w / 3 * 2" using w assms by (intro mult_left_mono) simp_all
  from add_right_mono [OF a1, of "1 / 10"] b have "w / 3 * (1 + r) + 1 / 10 \<le> w"
    by (rule order_trans)
  then show "span (w / 3 * (1 + r)) < span w" using w(1) by (rule span_step)
  have a2: "w / 3 * (2 - r) \<le> w / 3 * 2" using w assms by (intro mult_left_mono) simp_all
  from add_right_mono [OF a2, of "1 / 10"] b have "w / 3 * (2 - r) + 1 / 10 \<le> w"
    by (rule order_trans)
  then show "span (w / 3 * (2 - r)) < span w" using w(1) by (rule span_step)
qed

lemma aMid_widths:
  "aMid ang1 ang2 tk - ang1 = (ang2 - ang1) / 3 * (1 + rnd tk (rndCalls tk))"
  "ang2 - aMid ang1 ang2 tk = (ang2 - ang1) / 3 * (2 - rnd tk (rndCalls tk))"
  by (simp_all add: aMid_def field_simps)

lemma aRange_wf:
  "wfTags tk \<Longrightarrow> aRange n ang1 ang2 age tk = Some tk' \<Longrightarrow>
     wfTags tk' \<and> dFree tk' \<le> dFree tk"
proof (induction n arbitrary: ang1 ang2 age tk tk')
  case 0
  then show ?case by (simp add: aRange.simps)
next
  case (Suc n)
  let ?tk1 = "tk\<lparr>rndCalls := rndCalls tk + 1\<rparr>"
  from Suc.prems(1) have w1: "wfTags ?tk1" and d1: "dFree ?tk1 = dFree tk"
    by (simp_all add: wfTags_def wfBase_def dFree_def)
  from Suc.prems(2) show ?case
  proof (cases rule: aRange_SomeE)
    case (rec t tk2 a tk3)
    from tagAngle_wf [OF w1 rec(1)] d1 have a2: "wfTags tk2" "dFree tk2 \<le> dFree tk" by simp_all
    from Suc.IH [OF a2(1) rec(2)] have a3: "wfTags tk3" "dFree tk3 \<le> dFree tk2" by simp_all
    from Suc.IH [OF a3(1) rec(3)] a2 a3 show ?thesis by simp
  next
    case (stop t)
    from tagAngle_wf [OF w1 stop] d1 show ?thesis by simp
  qed
qed

lemma aRange_terminates:
  "wfTags tk \<Longrightarrow> (dFree tk + span (ang2 - ang1)) * 2 + (1 - age) < n \<Longrightarrow>
     \<exists>tk'. aRange n ang1 ang2 age tk = Some tk'"
proof (induction n arbitrary: ang1 ang2 age tk)
  case 0
  then show ?case by simp
next
  case (Suc n)
  let ?tk1 = "tk\<lparr>rndCalls := rndCalls tk + 1\<rparr>"
  let ?mid = "aMid ang1 ang2 tk"
  let ?w = "ang2 - ang1"
  from Suc.prems(1) have w1: "wfTags ?tk1" and d1: "dFree ?tk1 = dFree tk"
    by (simp_all add: wfTags_def wfBase_def dFree_def)
  from Suc.prems(1) have r: "0 \<le> rnd tk (rndCalls tk)" "rnd tk (rndCalls tk) \<le> 1"
    by (simp_all add: wfTags_def wfBase_def wfRnd_def)
  from tagAngle_total [OF w1] obtain t tk2 where ta: "tagAngle ?mid ?tk1 = Some (t, tk2)"
    by blast
  from tagAngle_wf [OF w1 ta] d1
  have a2: "wfTags tk2" "dFree tk2 \<le> dFree tk" "t \<longrightarrow> dFree tk2 < dFree tk" by simp_all
  note le = thirds_le [OF r, of ?w, folded aMid_widths]
  have both: "\<exists>tk'. (case aRange n ang1 ?mid a tk2 of None \<Rightarrow> None
                     | Some tk3 \<Rightarrow> aRange n ?mid ang2 a tk3) = Some tk'"
    if b1: "(dFree tk2 + span (?mid - ang1)) * 2 + (1 - a) < n"
      and b2: "(dFree tk2 + span (ang2 - ?mid)) * 2 + (1 - a) < n" for a
  proof -
    from Suc.IH [OF a2(1) b1] obtain tk3 where r1: "aRange n ang1 ?mid a tk2 = Some tk3"
      by blast
    from aRange_wf [OF a2(1) r1] have a3: "wfTags tk3" "dFree tk3 \<le> dFree tk2" by simp_all
    from a3(2) b2 have "(dFree tk3 + span (ang2 - ?mid)) * 2 + (1 - a) < n" by simp
    from Suc.IH [OF a3(1) this] r1 show ?thesis by simp
  qed
  show ?case
  proof (cases "t \<or> ?w / 3 > minAngleStep")
    case True
    have less: "dFree tk2 + span (?mid - ang1) < dFree tk + span ?w"
      "dFree tk2 + span (ang2 - ?mid) < dFree tk + span ?w"
    proof -
      show "dFree tk2 + span (?mid - ang1) < dFree tk + span ?w"
      proof (cases t)
        case True
        with a2(3) le(1) show ?thesis by simp
      next
        case False
        with \<open>t \<or> ?w / 3 > minAngleStep\<close> have "?w / 3 > 1 / 10" by (simp add: minAngleStep_def)
        from thirds_less(1) [OF r this, folded aMid_widths] a2(2) show ?thesis by simp
      qed
      show "dFree tk2 + span (ang2 - ?mid) < dFree tk + span ?w"
      proof (cases t)
        case True
        with a2(3) le(2) show ?thesis by simp
      next
        case False
        with \<open>t \<or> ?w / 3 > minAngleStep\<close> have "?w / 3 > 1 / 10" by (simp add: minAngleStep_def)
        from thirds_less(2) [OF r this, folded aMid_widths] a2(2) show ?thesis by simp
      qed
    qed
    from less Suc.prems(2) have "\<exists>tk'. (case aRange n ang1 ?mid 0 tk2 of None \<Rightarrow> None
                     | Some tk3 \<Rightarrow> aRange n ?mid ang2 0 tk3) = Some tk'"
      by (intro both) simp_all
    then show ?thesis unfolding aRange_rec0 [OF ta True] .
  next
    case False
    show ?thesis
    proof (cases "age < ageLimit")
      case True
      then have age: "age = 0" by (simp add: ageLimit_def)
      from le a2(2) Suc.prems(2) age
      have "\<exists>tk'. (case aRange n ang1 ?mid (age + 1) tk2 of None \<Rightarrow> None
                     | Some tk3 \<Rightarrow> aRange n ?mid ang2 (age + 1) tk3) = Some tk'"
        by (intro both) simp_all
      then show ?thesis unfolding aRange_rec1 [OF ta False True] .
    next
      case nl: False
      show ?thesis unfolding aRange_stop [OF ta False nl] by simp
    qed
  qed
qed

text \<open>The promotion loops return for a workspace that satisfies the invariant, and a
  promotion lowers \<open>tFree\<close>.\<close>

lemma promoteBody_props:
  assumes "c < length (Class (allM sv))" "c < length (Class (unkM sv))"
    and "i < length (Class (allM sv) ! c)" "i < length (Class (unkM sv) ! c)"
    and "i < length (SS (allM sv))" "i < length (SS (unkM sv))" "i < N"
  shows "\<exists>nt' s' lg'. promoteBody sv cx c i (nt, s, lg) = Some (nt', s', lg')
     \<and> tFreeOf N s' \<le> tFreeOf N s \<and> (nt' \<longrightarrow> nt \<or> tFreeOf N s' < tFreeOf N s)"
proof -
  have fi: "freeIn N (store (tagInClass s) i True) < freeIn N (tagInClass s)"
    if "\<not> lookup (tagInClass s) i"
    using assms(7) that by (rule freeIn_store_less)
  have fn: "freeIn N (store (tagNonClass s) i True) < freeIn N (tagNonClass s)"
    if "\<not> lookup (tagNonClass s) i"
    using assms(7) that by (rule freeIn_store_less)
  show ?thesis
  proof (cases "lookup (dInClass s) i \<and> \<not> lookup (tagInClass s) i")
    case a: True
    show ?thesis
    proof (cases "lookup (dNonClass s) i \<and> \<not> lookup (tagNonClass s) i")
      case True
      with a assms fi fn show ?thesis
        by (auto simp add: promoteBody_def elemAt_def tFreeOf_def add_less_mono less_imp_le add_mono)
    next
      case False
      with a assms fi show ?thesis
        by (auto simp add: promoteBody_def elemAt_def tFreeOf_def less_imp_le)
    qed
  next
    case a: False
    show ?thesis
    proof (cases "lookup (dNonClass s) i \<and> \<not> lookup (tagNonClass s) i")
      case True
      with a assms fn show ?thesis
        by (auto simp add: promoteBody_def elemAt_def tFreeOf_def less_imp_le)
    next
      case False
      with a show ?thesis
        by (auto simp add: promoteBody_def)
    qed
  qed
qed

lemma promoteClasses_props:
  "wfBase tk \<Longrightarrow> i < modelSize (bins (solver tk)) \<Longrightarrow>
   drop cx (classCompute (solver tk)) = ccs \<Longrightarrow>
     \<exists>nt' tk'. promoteClasses i cx ccs nt tk = Some (nt', tk')
       \<and> wfBase tk' \<and> solver tk' = solver tk \<and> dTag tk' = dTag tk
       \<and> tFree tk' \<le> tFree tk \<and> (nt' \<longrightarrow> nt \<or> tFree tk' < tFree tk)"
proof (induction ccs arbitrary: cx nt tk)
  case Nil
  then show ?case by simp
next
  case (Cons c rest)
  let ?sv = "solver tk"
  let ?N = "modelSize (bins ?sv)"
  from drop_Cons_nth [OF Cons.prems(3)]
  have c: "cx < length (classCompute ?sv)" "classCompute ?sv ! cx = c"
    "drop (cx + 1) (classCompute ?sv) = rest" by auto
  from Cons.prems(1) c(1) have cx: "cx < length (cs tk)" by (simp add: wfBase_def)
  from c have "c \<in> set (classCompute ?sv)" by (metis nth_mem)
  with Cons.prems(1) have hb: "c < length (Class (allM ?sv))" "c < length (Class (unkM ?sv))"
    "?N \<le> length (Class (allM ?sv) ! c)" "?N \<le> length (Class (unkM ?sv) ! c)"
    "?N \<le> length (SS (allM ?sv))" "?N \<le> length (SS (unkM ?sv))"
    by (simp_all add: wfBase_def wfSolver_def)
  from hb Cons.prems(2)
  have "\<exists>nt' s' lg'. promoteBody ?sv cx c i (nt, cs tk ! cx, promotions tk) = Some (nt', s', lg')
     \<and> tFreeOf ?N s' \<le> tFreeOf ?N (cs tk ! cx)
     \<and> (nt' \<longrightarrow> nt \<or> tFreeOf ?N s' < tFreeOf ?N (cs tk ! cx))"
    by (intro promoteBody_props) simp_all
  then obtain nt1 s1 lg1 where
    pb: "promoteBody ?sv cx c i (nt, cs tk ! cx, promotions tk) = Some (nt1, s1, lg1)"
    and le1: "tFreeOf ?N s1 \<le> tFreeOf ?N (cs tk ! cx)"
    and lt1: "nt1 \<longrightarrow> nt \<or> tFreeOf ?N s1 < tFreeOf ?N (cs tk ! cx)"
    by blast
  let ?tk1 = "tk\<lparr>cs := (cs tk)[cx := s1], promotions := lg1\<rparr>"
  have w1: "wfBase ?tk1" using Cons.prems(1) by (simp add: wfBase_def)
  have t1: "tFree ?tk1 \<le> tFree tk"
    using fsum_update_le [OF cx, of "tFreeOf ?N", OF le1] by (simp add: tFree_def)
  have t2: "nt1 \<longrightarrow> nt \<or> tFree ?tk1 < tFree tk"
    using lt1 fsum_update_less [OF cx, of "tFreeOf ?N" s1] by (auto simp: tFree_def)
  have "\<exists>nt' tk'. promoteClasses i (cx + 1) rest nt1 ?tk1 = Some (nt', tk')
       \<and> wfBase tk' \<and> solver tk' = solver ?tk1 \<and> dTag tk' = dTag ?tk1
       \<and> tFree tk' \<le> tFree ?tk1 \<and> (nt' \<longrightarrow> nt1 \<or> tFree tk' < tFree ?tk1)"
    using w1 Cons.prems(2) c(3) by (intro Cons.IH) simp_all
  then obtain nt' tk' where
    r: "promoteClasses i (cx + 1) rest nt1 ?tk1 = Some (nt', tk')"
    and p: "wfBase tk'" "solver tk' = solver tk" "dTag tk' = dTag tk"
      "tFree tk' \<le> tFree ?tk1" "nt' \<longrightarrow> nt1 \<or> tFree tk' < tFree ?tk1"
    by auto
  have "promoteClasses i cx (c # rest) nt tk = Some (nt', tk')"
    using cx pb r by (simp add: elemAt_def)
  moreover have "tFree tk' \<le> tFree tk" using p(4) t1 by simp
  moreover have "nt' \<longrightarrow> nt \<or> tFree tk' < tFree tk" using p(4,5) t1 t2 by linarith
  ultimately show ?case using p(1,2,3) by blast
qed

lemma promoteBins_props:
  "wfBase tk \<Longrightarrow> \<forall>p\<in>set m. fst p < modelSize (bins (solver tk)) \<Longrightarrow>
     \<exists>nt' tk'. promoteBins m nt tk = Some (nt', tk')
       \<and> wfBase tk' \<and> solver tk' = solver tk \<and> dTag tk' = dTag tk
       \<and> tFree tk' \<le> tFree tk \<and> (nt' \<longrightarrow> nt \<or> tFree tk' < tFree tk)"
proof (induction m arbitrary: nt tk)
  case Nil
  then show ?case by simp
next
  case (Cons p m)
  obtain i dtag where p: "p = (i, dtag)" by (cases p)
  from Cons.prems(2) p have i: "i < modelSize (bins (solver tk))"
    and rest: "\<forall>p\<in>set m. fst p < modelSize (bins (solver tk))" by simp_all
  show ?case
  proof (cases dtag)
    case False
    from Cons.IH [OF Cons.prems(1) rest, of nt] False p show ?thesis by simp
  next
    case True
    from promoteClasses_props [OF Cons.prems(1) i, of 0 "classCompute (solver tk)" nt]
    obtain nt1 tk1 where
      pc: "promoteClasses i 0 (classCompute (solver tk)) nt tk = Some (nt1, tk1)"
      and a: "wfBase tk1" "solver tk1 = solver tk" "dTag tk1 = dTag tk"
        "tFree tk1 \<le> tFree tk" "nt1 \<longrightarrow> nt \<or> tFree tk1 < tFree tk"
      by auto
    from rest a(2) have rest1: "\<forall>p\<in>set m. fst p < modelSize (bins (solver tk1))" by simp
    from Cons.IH [OF a(1) rest1, of nt1] obtain nt' tk' where
      r: "promoteBins m nt1 tk1 = Some (nt', tk')"
      and b: "wfBase tk'" "solver tk' = solver tk1" "dTag tk' = dTag tk1"
        "tFree tk' \<le> tFree tk1" "nt' \<longrightarrow> nt1 \<or> tFree tk' < tFree tk1"
      by auto
    have "promoteBins (p # m) nt tk = Some (nt', tk')" using p True pc r by simp
    moreover have "tFree tk' \<le> tFree tk" using a(4) b(4) by simp
    moreover have "nt' \<longrightarrow> nt \<or> tFree tk' < tFree tk" using a(4,5) b(4,5) by linarith
    ultimately show ?thesis using a(2,3) b(1,2,3) by simp
  qed
qed

lemma Atan2_bound: "\<bar>Atan2 y x\<bar> \<le> 3 * pi / 2"
proof -
  have "- (pi / 2) < arctan (y / x)" "arctan (y / x) < pi / 2"
    by (rule arctan_lbound, rule arctan_ubound)
  moreover have "0 < pi" by (rule pi_gt_zero)
  ultimately show ?thesis unfolding Atan2_def by (auto simp: abs_le_iff)
qed

lemma rootAngle_bound: "\<bar>rootAngle tk th bb inv2aa sd1\<bar> \<le> 12"
proof -
  have "\<bar>2 * Atan2 y x\<bar> \<le> 12" for y x
    using Atan2_bound [of y x] pi_less_4 by (simp add: abs_mult)
  then show ?thesis by (simp add: rootAngle_def Let_def)
qed

lemma solveAngleRange_width:
  assumes "solveAngleRange tk = (a1, a2, ok, tk')"
  shows "span (a2 - a1) \<le> 240"
proof -
  have "\<bar>a1\<bar> \<le> 12 \<and> \<bar>a2\<bar> \<le> 12"
    using assms unfolding solveAngleRange_def Let_def
    by (auto split: if_splits simp: rootAngle_bound)
  then have "a2 - a1 \<le> 24" by linarith
  then have "span (a2 - a1) \<le> span 24" by (rule span_mono)
  then show ?thesis by (simp add: span_def)
qed

text \<open>The searches return, and report a new tag only when \<open>tFree\<close> has fallen.\<close>

lemma searchAngles_props:
  assumes wf: "wfTags tk" and fuel: "aFuel (solver tk) \<le> fuel"
  shows "\<exists>r tk'. searchAngles fuel tk = Some (r, tk')
     \<and> wfBase tk' \<and> solver tk' = solver tk
     \<and> (\<forall>p\<in>set (dTag tk'). fst p < modelSize (bins (solver tk)))
     \<and> tFree tk' \<le> tFree tk \<and> (r \<longrightarrow> tFree tk' < tFree tk)"
proof -
  let ?tk0 = "tk\<lparr>searchAnglesCalls := searchAnglesCalls tk + 1\<rparr>"
  obtain a1 a2 ok tk1 where sar: "solveAngleRange ?tk0 = (a1, a2, ok, tk1)"
    by (metis prod_cases4)
  from solveAngleRange_calls [OF sar] have tk1: "tk1 = ?tk0\<lparr>tz := tz tk1\<rparr>" .
  have w1: "wfTags tk1" and s1: "solver tk1 = solver tk" and t1: "tFree tk1 = tFree tk"
    using wf by (subst tk1, simp add: wfTags_def wfBase_def tFree_def)+
  show ?thesis
  proof (cases ok)
    case False
    with sar have "searchAngles fuel tk = Some (False, tk1)" by (simp add: searchAngles_def)
    with w1 s1 t1 show ?thesis by (auto simp: wfTags_def)
  next
    case True
    have "dFree tk1 \<le> length (classCompute (solver tk)) * (2 * modelSize (bins (solver tk)))"
      using dFree_le [of tk1] w1 s1 by (simp add: wfTags_def wfBase_def)
    with solveAngleRange_width [OF sar] fuel
    have "(dFree tk1 + span (a2 - a1)) * 2 + (1 - 0) < fuel" by (simp add: aFuel_def)
    from aRange_terminates [OF w1 this] obtain tk2 where
      ar: "aRange fuel a1 a2 0 tk1 = Some tk2" by blast
    from aRange_wf [OF w1 ar] have w2: "wfTags tk2" by simp
    from aRange_frame [OF ar] have f2: "tagFrame tk1 tk2" .
    then have s2: "solver tk2 = solver tk" using s1 by (simp add: tagFrame_def)
    from tagFrame_tFree [OF f2] t1 have t2: "tFree tk2 = tFree tk" by simp
    show ?thesis
    proof (cases "dAnyTag tk2")
      case False
      with sar True ar have "searchAngles fuel tk = Some (False, tk2)"
        by (simp add: searchAngles_def)
      with w2 s2 t2 show ?thesis by (auto simp: wfTags_def)
    next
      case any: True
      from w2 have b2: "wfBase tk2"
        and k2: "\<forall>p\<in>set (dTag tk2). fst p < modelSize (bins (solver tk2))"
        by (simp_all add: wfTags_def)
      from promoteBins_props [OF b2 k2, of False] obtain r tk' where
        pb: "promoteBins (dTag tk2) False tk2 = Some (r, tk')"
        and p: "wfBase tk'" "solver tk' = solver tk2" "dTag tk' = dTag tk2"
          "tFree tk' \<le> tFree tk2" "r \<longrightarrow> tFree tk' < tFree tk2"
        by auto
      from sar True ar any pb have "searchAngles fuel tk = Some (r, tk')"
        by (simp add: searchAngles_def)
      with p k2 s2 t2 show ?thesis by simp
    qed
  qed
qed

lemma solveDistanceDependentVectors_bin:
  assumes "binsOK (bins (solver tk))" "solveDistanceDependentVectors d tk = Some tk'"
  shows "hmagBin tk' < length (HPart (bins (solver tk))) \<and> dTag tk' = dTag tk"
proof -
  from assms(2) obtain hm where h: "H (bins (solver tk)) hm = Some (hmagBin tk')"
    and d: "dTag tk' = dTag tk"
    by (auto simp: solveDistanceDependentVectors_def Let_def split: option.splits)
  from assms(1) H_spec [of "bins (solver tk)" hm] h
  have "hmagBin tk' \<le> nat (LastH (bins (solver tk)))" by (auto simp: binsOK_def)
  moreover from assms(1) have "0 < length (HPart (bins (solver tk)))"
    "LastH (bins (solver tk)) = int (length (HPart (bins (solver tk)))) - 1"
    by (simp_all add: binsOK_def)
  ultimately have "hmagBin tk' < length (HPart (bins (solver tk)))" by linarith
  with d show ?thesis by simp
qed

lemma searchOffsets_props:
  "wfBase tk \<Longrightarrow> \<forall>p\<in>set (dTag tk). fst p < modelSize (bins (solver tk)) \<Longrightarrow>
   aFuel (solver tk) \<le> fuel \<Longrightarrow>
     \<exists>r tk'. searchOffsets fuel d offs nt tk = Some (r, tk')
       \<and> wfBase tk' \<and> solver tk' = solver tk
       \<and> tFree tk' \<le> tFree tk \<and> (r \<longrightarrow> nt \<or> tFree tk' < tFree tk)"
proof (induction offs arbitrary: nt tk)
  case Nil
  then show ?case by simp
next
  case (Cons p offs)
  obtain ri di where p: "p = (ri, di)" by (cases p)
  let ?tk0 = "offsetMotionVector ri di tk"
  have f0: "tagFrame tk ?tk0" by (rule offsetMotionVector_frame)
  have d0: "dTag ?tk0 = dTag tk" by (simp add: offsetMotionVector_def Let_def)
  from Cons.prems(1) have ok: "binsOK (bins (solver ?tk0))"
    using f0 by (simp add: wfBase_def wfSolver_def tagFrame_def)
  from solveDistanceDependentVectors_total [OF ok] obtain tk1 where
    sd: "solveDistanceDependentVectors d ?tk0 = Some tk1" by blast
  have f1: "tagFrame tk tk1"
    by (rule tagFrame_trans [OF f0 solveDistanceDependentVectors_frame [OF sd]])
  then have s1: "solver tk1 = solver tk" by (simp add: tagFrame_def)
  have b1: "wfBase tk1" by (rule sFrame_wfBase [OF Cons.prems(1) tagFrame_sFrame [OF f1]])
  from solveDistanceDependentVectors_bin [OF ok sd] f0 d0
  have "hmagBin tk1 < length (HPart (bins (solver tk)))" "dTag tk1 = dTag tk"
    by (simp_all add: tagFrame_def)
  with b1 s1 Cons.prems(2) have w1: "wfTags tk1" by (simp add: wfTags_def)
  from Cons.prems(3) s1 have fu1: "aFuel (solver tk1) \<le> fuel" by simp
  from searchAngles_props [OF w1 fu1] s1 tagFrame_tFree [OF f1] obtain r1 tk2 where
    sa: "searchAngles fuel tk1 = Some (r1, tk2)"
    and a2: "wfBase tk2" "solver tk2 = solver tk"
      "\<forall>p\<in>set (dTag tk2). fst p < modelSize (bins (solver tk))"
      "tFree tk2 \<le> tFree tk" "r1 \<longrightarrow> tFree tk2 < tFree tk"
    by auto
  show ?case
  proof (cases "noObsErr tk2")
    case True
    with p sd sa have "searchOffsets fuel d (p # offs) nt tk = Some (if r1 then True else nt, tk2)"
      by (simp add: Let_def)
    with a2 show ?thesis by simp
  next
    case False
    from a2(2,3) have k2: "\<forall>p\<in>set (dTag tk2). fst p < modelSize (bins (solver tk2))" by simp
    from Cons.prems(3) a2(2) have fu2: "aFuel (solver tk2) \<le> fuel" by simp
    from Cons.IH [OF a2(1) k2 fu2, of "if r1 then True else nt"] obtain r tk' where
      so: "searchOffsets fuel d offs (if r1 then True else nt) tk2 = Some (r, tk')"
      and b: "wfBase tk'" "solver tk' = solver tk2" "tFree tk' \<le> tFree tk2"
        "r \<longrightarrow> (if r1 then True else nt) \<or> tFree tk' < tFree tk2"
      by auto
    from p sd sa False so have "searchOffsets fuel d (p # offs) nt tk = Some (r, tk')"
      by (simp add: Let_def)
    moreover have "tFree tk' \<le> tFree tk" using a2(4) b(3) by simp
    moreover have "r \<longrightarrow> nt \<or> tFree tk' < tFree tk"
      using a2(4,5) b(3,4) by (cases r1) auto
    ultimately show ?thesis using a2(2) b(1,2) by simp
  qed
qed

lemma searchDistance_props:
  assumes "wfBase tk" "aFuel (solver tk) \<le> fuel"
  shows "\<exists>r tk'. searchDistance fuel d tk = Some (r, tk')
       \<and> wfBase tk' \<and> solver tk' = solver tk
       \<and> tFree tk' \<le> tFree tk \<and> (r \<longrightarrow> tFree tk' < tFree tk)"
proof -
  let ?tk0 = "(clearDTags tk)\<lparr>dAnyTag := False\<rparr>"
  have f0: "tagFrame tk ?tk0" by (rule clearDTags_frame)
  then have s0: "solver ?tk0 = solver tk" by (simp add: tagFrame_def)
  have b0: "wfBase ?tk0" by (rule sFrame_wfBase [OF assms(1) tagFrame_sFrame [OF f0]])
  have k0: "\<forall>p\<in>set (dTag ?tk0). fst p < modelSize (bins (solver ?tk0))"
    by (simp add: clearDTags_def)
  from assms(2) s0 have fu: "aFuel (solver ?tk0) \<le> fuel" by simp
  from searchOffsets_props [OF b0 k0 fu, of d offsets False] s0 tagFrame_tFree [OF f0]
  show ?thesis by (simp add: searchDistance_def)
qed

lemma halves:
  "((d1::real) + d2) * 0.5 - d1 = (d2 - d1) / 2" "d2 - (d1 + d2) * 0.5 = (d2 - d1) / 2"
  by (simp_all add: field_simps)

lemma half_le: "span (w / 2) \<le> span w"
proof (cases "0 \<le> w")
  case True
  then have "w / 2 \<le> w" by simp
  then show ?thesis by (rule span_mono)
next
  case False
  then have "w / 2 \<le> 0" by simp
  then show ?thesis by (simp add: span_nonpos)
qed

lemma half_less: "w > 2 / 10 \<Longrightarrow> span (w / 2) < span w"
  by (rule span_step) simp_all

lemma dRange_terminates:
  "wfBase tk \<Longrightarrow> aFuel (solver tk) + (tFree tk + span (d2 - d1)) * 2 + (1 - age) < n \<Longrightarrow>
     \<exists>tk'. dRange n d1 d2 age tk = Some tk'
       \<and> wfBase tk' \<and> solver tk' = solver tk \<and> tFree tk' \<le> tFree tk"
proof (induction n arbitrary: d1 d2 age tk)
  case 0
  then show ?case by simp
next
  case (Suc n)
  let ?mid = "(d1 + d2) * 0.5"
  let ?w = "d2 - d1"
  let ?A = "aFuel (solver tk)"
  from Suc.prems(2) have fu: "?A \<le> Suc n" by simp
  from searchDistance_props [OF Suc.prems(1) fu, of ?mid] obtain r tk1 where
    sd: "searchDistance (Suc n) ?mid tk = Some (r, tk1)"
    and a1: "wfBase tk1" "solver tk1 = solver tk" "tFree tk1 \<le> tFree tk"
      "r \<longrightarrow> tFree tk1 < tFree tk"
    by auto
  have both: "\<exists>tk'. (case dRange n d1 ?mid a tk1 of None \<Rightarrow> None
                     | Some tk2 \<Rightarrow> dRange n ?mid d2 a tk2) = Some tk'
                \<and> wfBase tk' \<and> solver tk' = solver tk \<and> tFree tk' \<le> tFree tk"
    if b: "?A + (tFree tk1 + span (?w / 2)) * 2 + (1 - a) < n" for a
  proof -
    from b a1(2) have b1: "aFuel (solver tk1) + (tFree tk1 + span (?mid - d1)) * 2 + (1 - a) < n"
      by (simp only: halves)
    from Suc.IH [OF a1(1) b1] obtain tk2 where
      r1: "dRange n d1 ?mid a tk1 = Some tk2"
      and a2: "wfBase tk2" "solver tk2 = solver tk1" "tFree tk2 \<le> tFree tk1"
      by auto
    from b a1(2) a2(2,3)
    have b2: "aFuel (solver tk2) + (tFree tk2 + span (d2 - ?mid)) * 2 + (1 - a) < n"
      by (simp only: halves) simp
    from Suc.IH [OF a2(1) b2] obtain tk3 where
      r2: "dRange n ?mid d2 a tk2 = Some tk3"
      and a3: "wfBase tk3" "solver tk3 = solver tk2" "tFree tk3 \<le> tFree tk2"
      by auto
    from r1 r2 a1 a2 a3 show ?thesis by simp
  qed
  show ?case
  proof (cases "r \<or> ?w > minDistanceStep")
    case True
    have less: "tFree tk1 + span (?w / 2) < tFree tk + span ?w"
    proof (cases r)
      case True
      with a1(4) half_le [of ?w] show ?thesis by simp
    next
      case False
      with \<open>r \<or> ?w > minDistanceStep\<close> have "?w > 2 / 10" by (simp add: minDistanceStep_def)
      from half_less [OF this] a1(3) show ?thesis by simp
    qed
    from less Suc.prems(2) have "?A + (tFree tk1 + span (?w / 2)) * 2 + (1 - 0) < n" by simp
    from both [OF this] show ?thesis unfolding dRange_rec0 [OF sd True] .
  next
    case False
    show ?thesis
    proof (cases "age < ageLimit")
      case True
      then have age: "age = 0" by (simp add: ageLimit_def)
      from half_le [of ?w] a1(3) Suc.prems(2) age
      have "?A + (tFree tk1 + span (?w / 2)) * 2 + (1 - (age + 1)) < n" by simp
      from both [OF this] show ?thesis unfolding dRange_rec1 [OF sd False True] .
    next
      case nl: False
      from a1 show ?thesis unfolding dRange_stop [OF sd False nl] by simp
    qed
  qed
qed

lemma scoreSetup_wfBase:
  assumes "wfBase tk"
  shows "wfBase (scoreSetup tk)"
proof -
  have "rnd (scoreSetup tk) = rnd tk"
    by (auto simp: scoreSetup_def twoObs_def sov_def Let_def split: prod.splits)
  with assms scoreSetup_frame [of tk] show ?thesis by (simp add: wfBase_def)
qed

lemma score_terminates:
  assumes "wfSolver s" "wfRnd rn" "fuelBound s \<le> fuel"
  shows "\<exists>tk'. score fuel (newTracklet s o2 vm rn) = Some tk'"
proof -
  let ?nt = "newTracklet s o2 vm rn"
  let ?tk0 = "scoreSetup ?nt"
  let ?C = "length (classCompute s) * (2 * modelSize (bins s))"
  have wn: "wfBase ?nt" using assms(1,2) by (simp add: wfBase_def newTracklet_def)
  have b0: "wfBase ?tk0" by (rule scoreSetup_wfBase [OF wn])
  have s0: "solver ?tk0 = s" using scoreSetup_frame [of ?nt] by (simp add: newTracklet_def)
  have c0: "length (classScores ?tk0) = length (classCompute s)"
    using scoreSetup_frame [of ?nt] by (simp add: newTracklet_def)
  have l0: "length (cs ?tk0) = length (classCompute s)"
    using scoreSetup_frame [of ?nt] by (simp add: newTracklet_def)
  from assms(3) have fa: "aFuel s \<le> fuel" by (simp add: fuelBound_def)
  from searchDistance_props [OF b0, of fuel min_distance] fa s0 obtain r1 tk1 where
    d1: "searchDistance fuel min_distance ?tk0 = Some (r1, tk1)"
    and a1: "wfBase tk1" "solver tk1 = s" "tFree tk1 \<le> tFree ?tk0" by auto
  from searchDistance_props [OF a1(1), of fuel max_distance] fa a1(2) obtain r2 tk2 where
    d2: "searchDistance fuel max_distance tk1 = Some (r2, tk2)"
    and a2: "wfBase tk2" "solver tk2 = s" "tFree tk2 \<le> tFree tk1" by auto
  have "tFree ?tk0 \<le> ?C" using tFree_le [of ?tk0] s0 l0 by simp
  with a1(3) a2(3) have t2: "tFree tk2 \<le> ?C" by simp
  have "max_distance - min_distance \<le> 100" by (simp add: max_distance_def min_distance_def)
  then have "span (max_distance - min_distance) \<le> span 100" by (rule span_mono)
  then have sp: "span (max_distance - min_distance) \<le> 1000" by (simp add: span_def)
  from t2 sp assms(3) a2(2)
  have "aFuel (solver tk2) + (tFree tk2 + span (max_distance - min_distance)) * 2 + (1 - 0) < fuel"
    by (simp add: fuelBound_def)
  from dRange_terminates [OF a2(1) this] obtain tk3 where
    d3: "dRange fuel min_distance max_distance 0 tk2 = Some tk3"
    and a3: "wfBase tk3" "solver tk3 = solver tk2" by auto
  from searchDistance_holds [OF stable_True _ d1] have f1: "sFrame ?tk0 tk1"
    by (simp add: holds_def)
  from searchDistance_holds [OF stable_True _ d2] have f2: "sFrame tk1 tk2"
    by (simp add: holds_def)
  from dRange_holds [OF stable_True _ d3] have f3: "sFrame tk2 tk3"
    by (simp add: holds_def)
  from f1 f2 f3 c0 have c3: "length (classScores tk3) = length (classCompute s)"
    by (simp add: sFrame_def)
  from a3 a2(2) have l3: "length (cs tk3) = length (classCompute (solver tk3))"
    "solver tk3 = s" by (simp_all add: wfBase_def)
  have "\<exists>tk'. scoreLoop 0 (cs tk3) tk3 = Some tk'"
    using c3 l3 by (intro scoreLoop_total) simp_all
  with d1 d2 d3 show ?thesis by (simp add: score_def Let_def)
qed

lemma Solve_terminates:
  assumes "wfSolver s" "wfRnd rn" "fuelBound s \<le> fuel"
  shows "\<exists>r scores. Solve s o2 vm rn fuel = Some (r, scores)"
proof -
  from score_terminates [OF assms, of o2 vm] obtain tk' where
    "score fuel (newTracklet s o2 vm rn) = Some tk'" by blast
  then show ?thesis by (simp add: Solve_def)
qed

lemma wSolver_wf: "wfSolver wSolver" "wfRnd (\<lambda>n. 0)" "fuelBound wSolver \<le> 3060"
  by (simp_all add: wfSolver_def wfRnd_def fuelBound_def aFuel_def wSolver_def wBins_def
        binsOK_def modelSize_def CList_def)

subsection \<open>The concrete workspaces\<close>

lemma wSolverH_wf: "wfSolver wSolverH" "fuelBound wSolverH \<le> 3060"
  by (simp_all add: wfSolver_def fuelBound_def aFuel_def wSolverH_def wBins_def
        binsOK_def modelSize_def CList_def)

lemma hotPop_pos: "0 < hotPop"
  by (simp add: hotPop_def)

lemma hotSolver_wf: "wfSolver hotSolver" "fuelBound hotSolver \<le> 3060"
  "histOK (allM hotSolver)" "histOK (unkM hotSolver)"
  using hotPop_pos
  by (simp_all add: wfSolver_def fuelBound_def aFuel_def hotSolver_def wBins_def
        binsOK_def modelSize_def CList_def histOK_def less_imp_le)

lemma fl64_numeral [simp]:
  "(numeral k :: int) < 2 ^ 53 \<Longrightarrow> fl64 (numeral k) = numeral k"
  using fl64_int [of "numeral k"] by simp

lemma wTagged_promote: "promoteBins (dTag wTagged) False wTagged = Some (True, wPromoted)"
  by (simp add: wTagged_def wPromoted_def wFresh_def newTracklet_def wSolverH_def
        promoteBody_def elemAt_def lookup_def newClassStats_def f64add_def f64sub_def fl64_one)

lemma wRetagged_promote: "promoteBins (dTag wRetagged) False wRetagged = Some (True, wPromoted2)"
  by (simp add: wRetagged_def wPromoted2_def wTagged_def wPromoted_def wFresh_def newTracklet_def
        wSolverH_def promoteBody_def elemAt_def lookup_def newClassStats_def
        f64add_def f64sub_def fl64_one)

lemma wPromoted2_again: "promoteBins (dTag wPromoted2) False wPromoted2 = Some (False, wPromoted2)"
  by (simp add: wRetagged_def wPromoted2_def wTagged_def wPromoted_def wFresh_def newTracklet_def
        wSolverH_def promoteBody_def elemAt_def lookup_def newClassStats_def)

lemma wPromoted_scores:
  "map_option classScores (scoreLoop 0 (cs wPromoted) wPromoted)
     = Some [\<lparr>Raw = 75, NoId = 50\<rparr>, \<lparr>Raw = 0, NoId = 0\<rparr>]"
  by (simp add: wPromoted_def wTagged_def wFresh_def newTracklet_def wSolverH_def
        scoreOf_def elemAt_def Let_def f64add_def f64mul_def f64div_def)

lemma wFresh_scores:
  "map_option classScores (scoreLoop 0 (cs wFresh) wFresh)
     = Some [\<lparr>Raw = 100, NoId = 100\<rparr>, \<lparr>Raw = 0, NoId = 0\<rparr>]"
  by (simp add: wFresh_def newTracklet_def wSolverH_def newClassStats_def
        scoreOf_def elemAt_def Let_def f64add_def f64mul_def f64div_def)

lemma hotPop_fix: "fl64 hotPop = hotPop"
  unfolding hotPop_def by (rule fl64_hot_sum)

lemma hot_promote: "promoteBins (dTag hotTagged) False hotTagged = Some (True, hotPromoted)"
  by (simp add: hotTagged_def hotPromoted_def newTracklet_def hotSolver_def
        promoteBody_def elemAt_def lookup_def newClassStats_def f64add_def hotPop_fix)

lemma hot_score: "codeScore c hotPop 0 = 100 + 1 / 2 ^ 46"
proof -
  have p: "0 < hotPop" by (simp add: hotPop_def)
  have a: "f64add hotPop 0 = hotPop" by (simp add: f64add_def hotPop_def fl64_hot_sum)
  have m: "f64mul 100 hotPop = 4855443348258816 / 2 ^ 46"
    unfolding f64mul_def hotPop_def by (rule fl64_hot_product)
  have d: "f64div (4855443348258816 / 2 ^ 46) hotPop = 100 + 1 / 2 ^ 46"
    unfolding f64div_def hotPop_def by (rule fl64_hot_quotient)
  show ?thesis using p by (simp only: codeScore_def Let_def a m d if_True)
qed

lemma hot_scores:
  "map_option classScores (scoreLoop 0 (cs hotPromoted) hotPromoted)
     = Some [\<lparr>Raw = 100 + 1 / 2 ^ 46, NoId = 100 + 1 / 2 ^ 46\<rparr>]"
proof -
  have l: "(0::nat) < length (classCompute hotSolver)" by (simp add: hotSolver_def)
  have s: "scoreOf hotSolver 0 hotPop 0 = Some (100 + 1 / 2 ^ 46)"
    unfolding scoreOf_code [OF l] hot_score ..
  have sv: "solver hotPromoted = hotSolver" "cs hotPromoted = [\<lparr>tagInClass = [(3, True)], tagNonClass = [],
                       sumAllInClass = hotPop, sumAllNonClass = 0,
                       sumUnkInClass = hotPop, sumUnkNonClass = 0,
                       dInClass = [(3, True)], dNonClass = []\<rparr>]"
    "classScores hotPromoted = [\<lparr>Raw = 0, NoId = 0\<rparr>]"
    by (simp_all add: hotPromoted_def hotTagged_def newTracklet_def hotSolver_def)
  show ?thesis by (simp add: sv s)
qed

text \<open>
  Claim C4. With \<open>noObsErr\<close> set, a call of \<open>searchDistance\<close> is the geometry for the first
  offset \<open>(-1, -1)\<close> followed by one call of \<open>searchAngles\<close>, whose result it returns: the loop
  over the nine offsets returns in its first round, and the count of calls of \<open>searchAngles\<close>
  goes up by exactly one. The call returns when the workspace satisfies the invariant of the
  solve and the budget is at least \<open>aFuel\<close>.
\<close>

theorem searchDistance_noObsErr:
  assumes "noObsErr tk"
  shows "searchDistance fuel d tk =
           (case solveDistanceDependentVectors d
                   (offsetMotionVector (- 1) (- 1) ((clearDTags tk)\<lparr>dAnyTag := False\<rparr>)) of
              None \<Rightarrow> None
            | Some tk1 \<Rightarrow> searchAngles fuel tk1)
         \<and> (\<forall>r tk'. searchDistance fuel d tk = Some (r, tk')
               \<longrightarrow> searchAnglesCalls tk' = searchAnglesCalls tk + 1)
         \<and> (wfBase tk \<and> aFuel (solver tk) \<le> fuel
               \<longrightarrow> (\<exists>r tk'. searchDistance fuel d tk = Some (r, tk')))"
proof -
  have tot: "\<exists>r tk'. searchDistance fuel d tk = Some (r, tk')"
    if "wfBase tk \<and> aFuel (solver tk) \<le> fuel"
    using that searchDistance_props [of tk fuel d] by blast
  have main: "searchDistance fuel d tk =
           (case solveDistanceDependentVectors d
                   (offsetMotionVector (- 1) (- 1) ((clearDTags tk)\<lparr>dAnyTag := False\<rparr>)) of
              None \<Rightarrow> None
            | Some tk1 \<Rightarrow> searchAngles fuel tk1)
         \<and> (\<forall>r tk'. searchDistance fuel d tk = Some (r, tk')
               \<longrightarrow> searchAnglesCalls tk' = searchAnglesCalls tk + 1)"
  proof -
    let ?tk0 = "(clearDTags tk)\<lparr>dAnyTag := False\<rparr>"
    let ?tkv = "offsetMotionVector (- 1) (- 1) ?tk0"
    have n0: "noObsErr ?tkv" "searchAnglesCalls ?tkv = searchAnglesCalls tk"
      using assms tagFrame_trans [OF clearDTags_frame [of tk] offsetMotionVector_frame]
      by (simp_all add: tagFrame_def)
    have unf: "searchDistance fuel d tk =
        (case solveDistanceDependentVectors d ?tkv of
           None \<Rightarrow> None
         | Some tk1 \<Rightarrow>
             (case searchAngles fuel tk1 of
                None \<Rightarrow> None
              | Some (r, tk2) \<Rightarrow>
                  if noObsErr tk2 then Some (if r then True else False, tk2)
                  else searchOffsets fuel d (tl offsets) (if r then True else False) tk2))"
      unfolding searchDistance_def
      by (subst offsets_first) (simp add: Let_def split: option.splits prod.splits)
    show ?thesis
    proof (cases "solveDistanceDependentVectors d ?tkv")
      case None
      with unf show ?thesis by simp
    next
      case (Some tk1)
      note f1 = solveDistanceDependentVectors_frame [OF Some]
      with n0 have n1: "noObsErr tk1" "searchAnglesCalls tk1 = searchAnglesCalls tk"
        by (simp_all add: tagFrame_def)
      show ?thesis
      proof (cases "searchAngles fuel tk1")
        case None
        with unf Some show ?thesis by simp
      next
        case sa: (Some p)
        obtain r tk2 where p: "p = (r, tk2)" by (cases p)
        from searchAngles_fixed [OF sa [unfolded p]] n1
        have "noObsErr tk2" "searchAnglesCalls tk2 = searchAnglesCalls tk + 1" by simp_all
        with unf Some sa p show ?thesis by simp
      qed
    qed
  qed
  from main tot show ?thesis by blast
qed

theorem searchDistance_noObsErr_witness:
  "noObsErr (scoreSetup wTracklet)
   \<and> wfBase (scoreSetup wTracklet) \<and> aFuel (solver (scoreSetup wTracklet)) \<le> 770
   \<and> (\<exists>tk'. searchDistance 770 1 (scoreSetup wTracklet) = Some (False, tk')
          \<and> searchAnglesCalls tk' = 1)"
proof -
  have b: "binsOK (bins (solver (scoreSetup wTracklet)))"
    using wTracklet_quiet(2) scoreSetup_frame [of wTracklet] by simp
  have w: "wfBase (scoreSetup wTracklet)"
    using wSolver_wf(1,2)
    by (intro scoreSetup_wfBase) (simp add: wfBase_def wTracklet_def newTracklet_def)
  have a: "aFuel (solver (scoreSetup wTracklet)) \<le> 770"
    using scoreSetup_frame [of wTracklet]
    by (simp add: aFuel_def wTracklet_def newTracklet_def wSolver_def wBins_def modelSize_def)
  note sd = searchDistance_noObsErr [OF wTracklet_quiet(3), of 770 1]
  from sd w a obtain r tk' where
    s0: "searchDistance 770 1 (scoreSetup wTracklet) = Some (r, tk')" by blast
  from searchDistance_quiet [OF wTracklet_quiet(1) b, of 770 1] s0
  have s: "searchDistance 770 1 (scoreSetup wTracklet) = Some (False, tk')" by auto
  have c0: "searchAnglesCalls (scoreSetup wTracklet) = 0"
    unfolding scoreSetup_calls by (simp add: wTracklet_def newTracklet_def)
  from sd s have "searchAnglesCalls tk' = searchAnglesCalls (scoreSetup wTracklet) + 1"
    by blast
  with c0 have "searchAnglesCalls tk' = 1" by simp
  with s w a wTracklet_quiet(3) show ?thesis by blast
qed

text \<open>
  Claim C1. For every solve and every configured class index \<open>k\<close> with class
  \<open>c = classCompute[k]\<close>: with \<open>D\<close> the sum of the accumulated \<open>sumAllInClass\<close> and
  \<open>sumAllNonClass\<close>, the raw score returned is \<open>100 * sumAllInClass / D\<close> when \<open>D > 0\<close>, and
  otherwise 100 if \<open>c < 2\<close> and 0 for every other class; the noId score obeys the same rule on
  the unk sums. The sum, the product and the quotient are those of \<open>float64\<close>, as the code
  computes them. In three parts: a solve returns, for a well-formed solver and random source
  within the budget \<open>fuelBound\<close>, and with the same workspace within every larger budget; the
  workspace it returns is the one that the final loop makes of the workspace that the search
  leaves, with the sums as the search accumulated them, its scores are those of the rule on
  these sums, and \<open>Solve\<close> returns them; and
  the final loop, on any workspace, keeps the sums and writes for every class the scores of
  the rule, which lie within the relative distance \<open>2^-51\<close> of the rule in real arithmetic
  when the sums are not negative.
\<close>

theorem score_formula:
  "(wfSolver s \<and> wfRnd rn \<and> fuelBound s \<le> fuel
      \<longrightarrow> (\<exists>tk'. score fuel (newTracklet s o2 vm rn) = Some tk'))
   \<and> (\<forall>tk'. score fuel (newTracklet s o2 vm rn) = Some tk' \<longrightarrow>
         (\<forall>n. score (fuel + n) (newTracklet s o2 vm rn) = Some tk')
         \<and> Solve s o2 vm rn fuel = Some (rms tk', classScores tk')
         \<and> length (classScores tk') = length (classCompute s)
         \<and> length (cs tk') = length (classCompute s)
         \<and> (\<exists>r1 tk1 r2 tk2 tk3.
               searchDistance fuel min_distance (scoreSetup (newTracklet s o2 vm rn))
                 = Some (r1, tk1)
               \<and> searchDistance fuel max_distance tk1 = Some (r2, tk2)
               \<and> dRange fuel min_distance max_distance 0 tk2 = Some tk3
               \<and> solver tk3 = s
               \<and> scoreLoop 0 (cs tk3) tk3 = Some tk'
               \<and> cs tk' = cs tk3)
         \<and> (\<forall>k<length (classCompute s).
               Raw (classScores tk' ! k) =
                 (let c = classCompute s ! k;
                      sumIn = sumAllInClass (cs tk' ! k);
                      sumNon = sumAllNonClass (cs tk' ! k);
                      D = f64add sumIn sumNon
                  in if D > 0 then f64div (f64mul 100 sumIn) D else if c < 2 then 100 else 0)
               \<and> NoId (classScores tk' ! k) =
                 (let c = classCompute s ! k;
                      sumIn = sumUnkInClass (cs tk' ! k);
                      sumNon = sumUnkNonClass (cs tk' ! k);
                      D = f64add sumIn sumNon
                  in if D > 0 then f64div (f64mul 100 sumIn) D else if c < 2 then 100 else 0)))
   \<and> (\<forall>w w'. scoreLoop 0 (cs w) w = Some w' \<longrightarrow>
         cs w' = cs w \<and> solver w' = solver w \<and> rms w' = rms w
         \<and> length (classScores w') = length (classScores w)
         \<and> (\<forall>k<length (cs w).
               Raw (classScores w' ! k) =
                 (let c = classCompute (solver w) ! k;
                      sumIn = sumAllInClass (cs w ! k);
                      sumNon = sumAllNonClass (cs w ! k);
                      D = f64add sumIn sumNon
                  in if D > 0 then f64div (f64mul 100 sumIn) D else if c < 2 then 100 else 0)
               \<and> NoId (classScores w' ! k) =
                 (let c = classCompute (solver w) ! k;
                      sumIn = sumUnkInClass (cs w ! k);
                      sumNon = sumUnkNonClass (cs w ! k);
                      D = f64add sumIn sumNon
                  in if D > 0 then f64div (f64mul 100 sumIn) D else if c < 2 then 100 else 0)
               \<and> (0 \<le> sumAllInClass (cs w ! k) \<and> 0 \<le> sumAllNonClass (cs w ! k) \<longrightarrow>
                     \<bar>Raw (classScores w' ! k)
                        - specScore (classCompute (solver w) ! k)
                            (sumAllInClass (cs w ! k)) (sumAllNonClass (cs w ! k))\<bar>
                     \<le> specScore (classCompute (solver w) ! k)
                            (sumAllInClass (cs w ! k)) (sumAllNonClass (cs w ! k)) / 2 ^ 51)
               \<and> (0 \<le> sumUnkInClass (cs w ! k) \<and> 0 \<le> sumUnkNonClass (cs w ! k) \<longrightarrow>
                     \<bar>NoId (classScores w' ! k)
                        - specScore (classCompute (solver w) ! k)
                            (sumUnkInClass (cs w ! k)) (sumUnkNonClass (cs w ! k))\<bar>
                     \<le> specScore (classCompute (solver w) ! k)
                            (sumUnkInClass (cs w ! k)) (sumUnkNonClass (cs w ! k)) / 2 ^ 51)))"
proof -
  let ?nt = "newTracklet s o2 vm rn"
  have t: "\<exists>tk'. score fuel ?nt = Some tk'"
    if "wfSolver s \<and> wfRnd rn \<and> fuelBound s \<le> fuel"
    using that by (blast intro: score_terminates)
  have f: "(\<forall>n. score (fuel + n) ?nt = Some tk')
         \<and> Solve s o2 vm rn fuel = Some (rms tk', classScores tk')
         \<and> length (classScores tk') = length (classCompute s)
         \<and> length (cs tk') = length (classCompute s)
         \<and> (\<exists>r1 tk1 r2 tk2 tk3.
               searchDistance fuel min_distance (scoreSetup ?nt) = Some (r1, tk1)
               \<and> searchDistance fuel max_distance tk1 = Some (r2, tk2)
               \<and> dRange fuel min_distance max_distance 0 tk2 = Some tk3
               \<and> solver tk3 = s
               \<and> scoreLoop 0 (cs tk3) tk3 = Some tk'
               \<and> cs tk' = cs tk3)
         \<and> (\<forall>k<length (classCompute s).
               Raw (classScores tk' ! k) =
                 (let c = classCompute s ! k;
                      sumIn = sumAllInClass (cs tk' ! k);
                      sumNon = sumAllNonClass (cs tk' ! k);
                      D = f64add sumIn sumNon
                  in if D > 0 then f64div (f64mul 100 sumIn) D else if c < 2 then 100 else 0)
               \<and> NoId (classScores tk' ! k) =
                 (let c = classCompute s ! k;
                      sumIn = sumUnkInClass (cs tk' ! k);
                      sumNon = sumUnkNonClass (cs tk' ! k);
                      D = f64add sumIn sumNon
                  in if D > 0 then f64div (f64mul 100 sumIn) D else if c < 2 then 100 else 0))"
    if a: "score fuel ?nt = Some tk'" for tk'
  proof -
    from a obtain r1 tk1 r2 tk2 tk3 where
      s1: "searchDistance fuel min_distance (scoreSetup ?nt) = Some (r1, tk1)"
      and s2: "searchDistance fuel max_distance tk1 = Some (r2, tk2)"
      and s3: "dRange fuel min_distance max_distance 0 tk2 = Some tk3"
      and s4: "scoreLoop 0 (cs tk3) tk3 = Some tk'"
      by (auto simp: score_def Let_def split: option.splits)
    from scoreLoop_props [OF s4] score_result [OF a]
    have "solver tk3 = s" "cs tk' = cs tk3" by simp_all
    with s1 s2 s3 s4 have e: "\<exists>r1 tk1 r2 tk2 tk3.
               searchDistance fuel min_distance (scoreSetup ?nt) = Some (r1, tk1)
               \<and> searchDistance fuel max_distance tk1 = Some (r2, tk2)
               \<and> dRange fuel min_distance max_distance 0 tk2 = Some tk3
               \<and> solver tk3 = s
               \<and> scoreLoop 0 (cs tk3) tk3 = Some tk'
               \<and> cs tk' = cs tk3" by blast
    from score_result [OF a] have v: "\<forall>k<length (classCompute s).
               Raw (classScores tk' ! k) =
                 (let c = classCompute s ! k;
                      sumIn = sumAllInClass (cs tk' ! k);
                      sumNon = sumAllNonClass (cs tk' ! k);
                      D = f64add sumIn sumNon
                  in if D > 0 then f64div (f64mul 100 sumIn) D else if c < 2 then 100 else 0)
               \<and> NoId (classScores tk' ! k) =
                 (let c = classCompute s ! k;
                      sumIn = sumUnkInClass (cs tk' ! k);
                      sumNon = sumUnkNonClass (cs tk' ! k);
                      D = f64add sumIn sumNon
                  in if D > 0 then f64div (f64mul 100 sumIn) D else if c < 2 then 100 else 0)"
      by (simp add: codeScore_def Let_def)
    from score_result [OF a] a score_mono [OF a]
    have "(\<forall>n. score (fuel + n) ?nt = Some tk')
         \<and> Solve s o2 vm rn fuel = Some (rms tk', classScores tk')
         \<and> length (classScores tk') = length (classCompute s)
         \<and> length (cs tk') = length (classCompute s)"
      by (simp add: Solve_def)
    with e v show ?thesis by blast
  qed
  have g: "cs w' = cs w \<and> solver w' = solver w \<and> rms w' = rms w
         \<and> length (classScores w') = length (classScores w)
         \<and> (\<forall>k<length (cs w).
               Raw (classScores w' ! k) =
                 (let c = classCompute (solver w) ! k;
                      sumIn = sumAllInClass (cs w ! k);
                      sumNon = sumAllNonClass (cs w ! k);
                      D = f64add sumIn sumNon
                  in if D > 0 then f64div (f64mul 100 sumIn) D else if c < 2 then 100 else 0)
               \<and> NoId (classScores w' ! k) =
                 (let c = classCompute (solver w) ! k;
                      sumIn = sumUnkInClass (cs w ! k);
                      sumNon = sumUnkNonClass (cs w ! k);
                      D = f64add sumIn sumNon
                  in if D > 0 then f64div (f64mul 100 sumIn) D else if c < 2 then 100 else 0)
               \<and> (0 \<le> sumAllInClass (cs w ! k) \<and> 0 \<le> sumAllNonClass (cs w ! k) \<longrightarrow>
                     \<bar>Raw (classScores w' ! k)
                        - specScore (classCompute (solver w) ! k)
                            (sumAllInClass (cs w ! k)) (sumAllNonClass (cs w ! k))\<bar>
                     \<le> specScore (classCompute (solver w) ! k)
                            (sumAllInClass (cs w ! k)) (sumAllNonClass (cs w ! k)) / 2 ^ 51)
               \<and> (0 \<le> sumUnkInClass (cs w ! k) \<and> 0 \<le> sumUnkNonClass (cs w ! k) \<longrightarrow>
                     \<bar>NoId (classScores w' ! k)
                        - specScore (classCompute (solver w) ! k)
                            (sumUnkInClass (cs w ! k)) (sumUnkNonClass (cs w ! k))\<bar>
                     \<le> specScore (classCompute (solver w) ! k)
                            (sumUnkInClass (cs w ! k)) (sumUnkNonClass (cs w ! k)) / 2 ^ 51))"
    if b: "scoreLoop 0 (cs w) w = Some w'" for w w'
  proof -
    note p = scoreLoop_props [OF b]
    have e: "x * (4 * u64) = x / 2 ^ 51" for x :: real by (simp add: u64_def)
    have "Raw (classScores w' ! k) = codeScore (classCompute (solver w) ! k)
                (sumAllInClass (cs w ! k)) (sumAllNonClass (cs w ! k))
        \<and> NoId (classScores w' ! k) = codeScore (classCompute (solver w) ! k)
                (sumUnkInClass (cs w ! k)) (sumUnkNonClass (cs w ! k))"
      if "k < length (cs w)" for k
      using p that by simp
    then show ?thesis
      using p codeScore_near [unfolded e]
      by (simp add: Let_def) (simp add: codeScore_def Let_def)
  qed
  from t f g show ?thesis by blast
qed

theorem score_formula_witness:
  "wfSolver wSolverH \<and> wfRnd lcgDraw \<and> fuelBound wSolverH \<le> 3060
   \<and> (\<exists>tk'. score 3060 (newTracklet wSolverH wOutcome2 21 lcgDraw) = Some tk'
         \<and> Solve wSolverH wOutcome2 21 lcgDraw 3060 = Some (rms tk', classScores tk')
         \<and> length (classScores tk') = 2)
   \<and> (\<exists>w'. scoreLoop 0 (cs wPromoted) wPromoted = Some w' \<and> cs w' = cs wPromoted
         \<and> Raw (classScores w' ! 0) = 75 \<and> NoId (classScores w' ! 0) = 50
         \<and> Raw (classScores w' ! 1) = 0 \<and> NoId (classScores w' ! 1) = 0)
   \<and> (\<exists>w'. scoreLoop 0 (cs wFresh) wFresh = Some w' \<and> cs w' = cs wFresh
         \<and> Raw (classScores w' ! 0) = 100 \<and> NoId (classScores w' ! 0) = 100
         \<and> Raw (classScores w' ! 1) = 0 \<and> NoId (classScores w' ! 1) = 0)"
proof -
  note sf = score_formula [where s = wSolverH and rn = lcgDraw and fuel = 3060
      and ?o2.0 = wOutcome2 and vm = 21]
  from sf wSolverH_wf lcgDraw_wf obtain tk' where
    s: "score 3060 (newTracklet wSolverH wOutcome2 21 lcgDraw) = Some tk'" by blast
  with sf have "Solve wSolverH wOutcome2 21 lcgDraw 3060 = Some (rms tk', classScores tk')
      \<and> length (classScores tk') = length (classCompute wSolverH)" by blast
  then have a: "Solve wSolverH wOutcome2 21 lcgDraw 3060 = Some (rms tk', classScores tk')
      \<and> length (classScores tk') = 2" by (simp add: wSolverH_def)
  from wPromoted_scores obtain w1 where
    p1: "scoreLoop 0 (cs wPromoted) wPromoted = Some w1" by auto
  from sf p1 have c1: "cs w1 = cs wPromoted" by blast
  from wPromoted_scores p1 have v1: "Raw (classScores w1 ! 0) = 75" "NoId (classScores w1 ! 0) = 50"
    "Raw (classScores w1 ! 1) = 0" "NoId (classScores w1 ! 1) = 0" by simp_all
  from wFresh_scores obtain w2 where
    p2: "scoreLoop 0 (cs wFresh) wFresh = Some w2" by auto
  from sf p2 have c2: "cs w2 = cs wFresh" by blast
  from wFresh_scores p2 have v2: "Raw (classScores w2 ! 0) = 100" "NoId (classScores w2 ! 0) = 100"
    "Raw (classScores w2 ! 1) = 0" "NoId (classScores w2 ! 1) = 0" by simp_all
  from s a p1 c1 v1 p2 c2 v2 wSolverH_wf lcgDraw_wf show ?thesis by blast
qed

text \<open>
  Claim C2, as stated: under the precondition on the histograms the scores are at most 100.
  With every bin's population \<open>hotPop\<close> (the \<open>float64\<close> nearest to 0.69) and all of it in the
  class NEO, the histograms meet the precondition; promoting one bin tagged in class gives
  the sums \<open>hotPop\<close> and 0, and the final loop of \<open>score\<close> writes
  \<open>100 * hotPop / hotPop\<close>, which in \<open>float64\<close> is \<open>100 + 2^-46\<close>.
\<close>

theorem scores_in_range_counterexample:
  "histOK (allM hotSolver) \<and> histOK (unkM hotSolver)
   \<and> promoteBins (dTag hotTagged) False hotTagged = Some (True, hotPromoted)
   \<and> map_option classScores (scoreLoop 0 (cs hotPromoted) hotPromoted)
       = Some [\<lparr>Raw = 100 + 1 / 2 ^ 46, NoId = 100 + 1 / 2 ^ 46\<rparr>]
   \<and> \<not> (100 + 1 / 2 ^ 46 \<le> (100 :: real))"
  using hotSolver_wf(3,4) hot_promote hot_scores by simp

text \<open>
  Claim C2, amended. If both histograms satisfy \<open>0 \<le> Class[c][x] \<le> SS[x]\<close> for every class
  and bin, then the scores that \<open>Solve\<close> returns, one for each configured class, satisfy
  \<open>0 \<le> raw \<le> 100 * (1 + 2^-51)\<close> and \<open>0 \<le> noId \<le> 100 * (1 + 2^-51)\<close>: the quotient is
  computed in \<open>float64\<close>, and its rounding can carry it above 100 when the non-class sum is 0.
  \<open>Solve\<close> does return the scores, for a well-formed solver and random source, within the
  budget \<open>fuelBound\<close>; and the final loop of \<open>score\<close> keeps the bounds on any workspace whose
  sums are not negative.
\<close>

theorem scores_in_range:
  assumes "histOK (allM s)" "histOK (unkM s)"
  shows "(wfSolver s \<and> wfRnd rn \<and> fuelBound s \<le> fuel
            \<longrightarrow> (\<exists>r scores. Solve s o2 vm rn fuel = Some (r, scores)))
     \<and> (\<forall>r scores. Solve s o2 vm rn fuel = Some (r, scores) \<longrightarrow>
           length scores = length (classCompute s)
           \<and> (\<forall>k<length scores.
                 0 \<le> Raw (scores ! k) \<and> Raw (scores ! k) \<le> 100 * (1 + 1 / 2 ^ 51)
                 \<and> 0 \<le> NoId (scores ! k) \<and> NoId (scores ! k) \<le> 100 * (1 + 1 / 2 ^ 51)))
     \<and> (\<forall>w w'. (\<forall>st\<in>set (cs w). 0 \<le> sumAllInClass st \<and> 0 \<le> sumAllNonClass st
                                  \<and> 0 \<le> sumUnkInClass st \<and> 0 \<le> sumUnkNonClass st)
               \<and> scoreLoop 0 (cs w) w = Some w' \<longrightarrow>
           (\<forall>k<length (cs w).
              0 \<le> Raw (classScores w' ! k)
              \<and> Raw (classScores w' ! k) \<le> 100 * (1 + 1 / 2 ^ 51)
              \<and> 0 \<le> NoId (classScores w' ! k)
              \<and> NoId (classScores w' ! k) \<le> 100 * (1 + 1 / 2 ^ 51)))"
proof -
  have t: "\<exists>r scores. Solve s o2 vm rn fuel = Some (r, scores)"
    if "wfSolver s \<and> wfRnd rn \<and> fuelBound s \<le> fuel"
    using that by (blast intro: Solve_terminates)
  have g: "0 \<le> Raw (classScores w' ! k)
              \<and> Raw (classScores w' ! k) \<le> 100 * (1 + 1 / 2 ^ 51)
              \<and> 0 \<le> NoId (classScores w' ! k)
              \<and> NoId (classScores w' ! k) \<le> 100 * (1 + 1 / 2 ^ 51)"
    if nn: "\<forall>st\<in>set (cs w). 0 \<le> sumAllInClass st \<and> 0 \<le> sumAllNonClass st
                                  \<and> 0 \<le> sumUnkInClass st \<and> 0 \<le> sumUnkNonClass st"
      and b: "scoreLoop 0 (cs w) w = Some w'" and k: "k < length (cs w)" for w w' k
  proof -
    from k have "cs w ! k \<in> set (cs w)" by simp
    with nn have n: "0 \<le> sumAllInClass (cs w ! k)" "0 \<le> sumAllNonClass (cs w ! k)"
      "0 \<le> sumUnkInClass (cs w ! k)" "0 \<le> sumUnkNonClass (cs w ! k)" by blast+
    from scoreLoop_props [OF b] k have "classScores w' ! k =
             \<lparr>Raw = codeScore (classCompute (solver w) ! k)
                      (sumAllInClass (cs w ! k)) (sumAllNonClass (cs w ! k)),
              NoId = codeScore (classCompute (solver w) ! k)
                       (sumUnkInClass (cs w ! k)) (sumUnkNonClass (cs w ! k))\<rparr>"
      by simp
    with codeScore_range [OF n(1,2)] codeScore_range [OF n(3,4)] show ?thesis by simp
  qed
  have f: "length scores = length (classCompute s)
           \<and> (\<forall>k<length scores.
                 0 \<le> Raw (scores ! k) \<and> Raw (scores ! k) \<le> 100 * (1 + 1 / 2 ^ 51)
                 \<and> 0 \<le> NoId (scores ! k) \<and> NoId (scores ! k) \<le> 100 * (1 + 1 / 2 ^ 51))"
    if sol: "Solve s o2 vm rn fuel = Some (r, scores)" for r scores
  proof -
    from sol obtain tk' where
      s: "score fuel (newTracklet s o2 vm rn) = Some tk'" and sc: "scores = classScores tk'"
      by (auto simp: Solve_def split: option.splits)
    note res = score_result [OF s]
    from score_holds [OF stable_sumsNonneg newTracklet_holds(2) s]
    have "holds sumsNonneg tk'" by simp
    with res assms(1,2) have nn: "\<forall>st\<in>set (cs tk'). 0 \<le> sumAllInClass st \<and> 0 \<le> sumAllNonClass st
                        \<and> 0 \<le> sumUnkInClass st \<and> 0 \<le> sumUnkNonClass st"
      by (simp add: holds_def sumsNonneg_def)
    have "0 \<le> Raw (scores ! k) \<and> Raw (scores ! k) \<le> 100 * (1 + 1 / 2 ^ 51)
        \<and> 0 \<le> NoId (scores ! k) \<and> NoId (scores ! k) \<le> 100 * (1 + 1 / 2 ^ 51)"
      if k: "k < length scores" for k
    proof -
      from k sc res have kk: "k < length (classCompute s)" "k < length (cs tk')" by simp_all
      then have "cs tk' ! k \<in> set (cs tk')" by simp
      with nn have n: "0 \<le> sumAllInClass (cs tk' ! k)" "0 \<le> sumAllNonClass (cs tk' ! k)"
        "0 \<le> sumUnkInClass (cs tk' ! k)" "0 \<le> sumUnkNonClass (cs tk' ! k)" by blast+
      from res kk sc have "scores ! k =
               \<lparr>Raw = codeScore (classCompute s ! k)
                        (sumAllInClass (cs tk' ! k)) (sumAllNonClass (cs tk' ! k)),
                NoId = codeScore (classCompute s ! k)
                         (sumUnkInClass (cs tk' ! k)) (sumUnkNonClass (cs tk' ! k))\<rparr>"
        by simp
      with codeScore_range [OF n(1,2)] codeScore_range [OF n(3,4)] show ?thesis by simp
    qed
    with res sc show ?thesis by simp
  qed
  from t f g show ?thesis by blast
qed

theorem scores_in_range_witness:
  "histOK (allM hotSolver) \<and> histOK (unkM hotSolver)
   \<and> wfSolver hotSolver \<and> wfRnd lcgDraw \<and> fuelBound hotSolver \<le> 3060
   \<and> (\<exists>r scores. Solve hotSolver wOutcome2 21 lcgDraw 3060 = Some (r, scores)
         \<and> length scores = 1
         \<and> 0 \<le> Raw (scores ! 0) \<and> Raw (scores ! 0) \<le> 100 * (1 + 1 / 2 ^ 51)
         \<and> 0 \<le> NoId (scores ! 0) \<and> NoId (scores ! 0) \<le> 100 * (1 + 1 / 2 ^ 51))
   \<and> (\<exists>w'. scoreLoop 0 (cs hotPromoted) hotPromoted = Some w'
         \<and> 100 < Raw (classScores w' ! 0)
         \<and> Raw (classScores w' ! 0) \<le> 100 * (1 + 1 / 2 ^ 51))"
proof -
  note sr = scores_in_range [OF hotSolver_wf(3,4), where rn = lcgDraw and fuel = 3060
      and ?o2.0 = wOutcome2 and vm = 21]
  from sr hotSolver_wf(1,2) lcgDraw_wf obtain r scores where
    sv: "Solve hotSolver wOutcome2 21 lcgDraw 3060 = Some (r, scores)" by blast
  with sr have "length scores = length (classCompute hotSolver)
     \<and> (\<forall>k<length scores.
           0 \<le> Raw (scores ! k) \<and> Raw (scores ! k) \<le> 100 * (1 + 1 / 2 ^ 51)
           \<and> 0 \<le> NoId (scores ! k) \<and> NoId (scores ! k) \<le> 100 * (1 + 1 / 2 ^ 51))"
    by blast
  then have a: "length scores = 1
     \<and> 0 \<le> Raw (scores ! 0) \<and> Raw (scores ! 0) \<le> 100 * (1 + 1 / 2 ^ 51)
     \<and> 0 \<le> NoId (scores ! 0) \<and> NoId (scores ! 0) \<le> 100 * (1 + 1 / 2 ^ 51)"
    by (simp add: hotSolver_def)
  from hot_scores obtain w' where
    p: "scoreLoop 0 (cs hotPromoted) hotPromoted = Some w'" by auto
  have nn: "\<forall>st\<in>set (cs hotPromoted). 0 \<le> sumAllInClass st \<and> 0 \<le> sumAllNonClass st
                                  \<and> 0 \<le> sumUnkInClass st \<and> 0 \<le> sumUnkNonClass st"
    using hotPop_pos by (simp add: hotPromoted_def hotTagged_def newTracklet_def less_imp_le)
  have l: "(0::nat) < length (cs hotPromoted)"
    by (simp add: hotPromoted_def hotTagged_def newTracklet_def)
  from sr nn p l have u: "Raw (classScores w' ! 0) \<le> 100 * (1 + 1 / 2 ^ 51)" by blast
  from hot_scores p have "Raw (classScores w' ! 0) = 100 + 1 / 2 ^ 46" by simp
  then have "100 < Raw (classScores w' ! 0)" by simp
  with sv a p u hotSolver_wf lcgDraw_wf show ?thesis by blast
qed

lemma promoteBody_sums:
  assumes "promoteBody sv cx c i (nt, s, lg) = Some (nt', s', lg')"
  shows "sumAllInClass s' =
           (if lookup (dInClass s) i \<and> \<not> lookup (tagInClass s) i
            then f64add (sumAllInClass s) (Class (allM sv) ! c ! i) else sumAllInClass s)"
    and "sumUnkInClass s' =
           (if lookup (dInClass s) i \<and> \<not> lookup (tagInClass s) i
            then f64add (sumUnkInClass s) (Class (unkM sv) ! c ! i) else sumUnkInClass s)"
    and "sumAllNonClass s' =
           (if lookup (dNonClass s) i \<and> \<not> lookup (tagNonClass s) i
            then f64add (sumAllNonClass s) (f64sub (SS (allM sv) ! i) (Class (allM sv) ! c ! i))
            else sumAllNonClass s)"
    and "sumUnkNonClass s' =
           (if lookup (dNonClass s) i \<and> \<not> lookup (tagNonClass s) i
            then f64add (sumUnkNonClass s) (f64sub (SS (unkM sv) ! i) (Class (unkM sv) ! c ! i))
            else sumUnkNonClass s)"
  using assms unfolding promoteBody_def elemAt_def
  by (auto split: if_splits option.splits prod.splits)

lemma stable_sumsMatch: "stable sumsMatch"
  unfolding stable_def
proof (intro conjI allI impI)
  fix sv css css' lg
  assume q: "sumsMatch sv css lg" and eq: "list_all2 dScopeEq css css'"
  have len: "length css' = length css" using eq by (auto dest: list_all2_lengthD)
  have same: "dScopeEq (css ! k) (css' ! k)" if "k < length css" for k
    using eq that by (auto simp: list_all2_conv_all_nth)
  show "sumsMatch sv css' lg"
    unfolding sumsMatch_def
  proof (intro allI impI)
    fix k assume "k < length css'"
    with len have k: "k < length css" by simp
    from same [OF k] q k
    show "sumAllInClass (css' ! k) = f64sum (map (popIn (allM sv) sv k) lg)
        \<and> sumUnkInClass (css' ! k) = f64sum (map (popIn (unkM sv) sv k) lg)
        \<and> sumAllNonClass (css' ! k) = f64sum (map (popNon (allM sv) sv k) lg)
        \<and> sumUnkNonClass (css' ! k) = f64sum (map (popNon (unkM sv) sv k) lg)"
      by (simp add: sumsMatch_def dScopeEq_def)
  qed
next
  fix sv css lg cx i nt nt' s' lg'
  assume q: "sumsMatch sv css lg" and cx: "cx < length css"
    and pb: "promoteBody sv cx (classCompute sv ! cx) i (nt, css ! cx, lg) = Some (nt', s', lg')"
  note pl = promoteBody_log [OF pb]
  note ps = promoteBody_sums [OF pb]
  show "sumsMatch sv (css[cx := s']) lg'"
    unfolding sumsMatch_def
  proof (intro allI impI)
    fix k assume "k < length (css[cx := s'])"
    then have k: "k < length css" by simp
    from q k have old:
      "sumAllInClass (css ! k) = f64sum (map (popIn (allM sv) sv k) lg)"
      "sumUnkInClass (css ! k) = f64sum (map (popIn (unkM sv) sv k) lg)"
      "sumAllNonClass (css ! k) = f64sum (map (popNon (allM sv) sv k) lg)"
      "sumUnkNonClass (css ! k) = f64sum (map (popNon (unkM sv) sv k) lg)"
      by (simp_all add: sumsMatch_def)
    show "sumAllInClass (css[cx := s'] ! k) = f64sum (map (popIn (allM sv) sv k) lg')
        \<and> sumUnkInClass (css[cx := s'] ! k) = f64sum (map (popIn (unkM sv) sv k) lg')
        \<and> sumAllNonClass (css[cx := s'] ! k) = f64sum (map (popNon (allM sv) sv k) lg')
        \<and> sumUnkNonClass (css[cx := s'] ! k) = f64sum (map (popNon (unkM sv) sv k) lg')"
    proof (cases "k = cx")
      case True
      with cx old ps show ?thesis
        unfolding pl(1) by (simp add: popIn_def popNon_def)
    next
      case False
      with k old show ?thesis
        unfolding pl(1) by (simp add: popIn_def popNon_def)
    qed
  qed
qed

lemma newTracklet_sumsMatch: "holds sumsMatch (newTracklet s o2 vm rn)"
  by (simp add: holds_def newTracklet_def sumsMatch_def newClassStats_def)

lemma stable_extends: "stable (\<lambda>sv css lg. \<exists>new. lg = base @ new)"
  unfolding stable_def
  by (auto dest!: promoteBody_log(1))

lemma promotionsOK_holds:
  "promotionsOK tk \<longleftrightarrow> holds lengthsAgree tk \<and> holds promotedOnce tk \<and> holds sumsMatch tk"
  unfolding promotionsOK_def holds_def lengthsAgree_def promotedOnce_def sumsMatch_def
  by auto

lemma promoteBins_OK:
  assumes "promotionsOK tk" "promoteBins m nt tk = Some (nt', tk1)"
  shows "promotionsOK tk1 \<and> solver tk1 = solver tk
     \<and> (\<exists>new. promotions tk1 = promotions tk @ new)"
proof -
  from assms(1) have h: "holds lengthsAgree tk" "holds promotedOnce tk" "holds sumsMatch tk"
    by (simp_all add: promotionsOK_holds)
  have e: "holds (\<lambda>sv css lg. \<exists>new. lg = promotions tk @ new) tk" by (simp add: holds_def)
  from promoteBins_holds [OF stable_lengthsAgree h(1) assms(2)]
    promoteBins_holds [OF stable_promotedOnce h(2) assms(2)]
    promoteBins_holds [OF stable_sumsMatch h(3) assms(2)]
    promoteBins_holds [OF stable_extends e assms(2)]
  show ?thesis by (simp add: promotionsOK_holds sFrame_def) (simp add: holds_def)
qed

lemma searchDistance_OK:
  assumes "promotionsOK tk" "searchDistance fuel d tk = Some (r, tk1)"
  shows "promotionsOK tk1 \<and> solver tk1 = solver tk
     \<and> (\<exists>new. promotions tk1 = promotions tk @ new)"
proof -
  from assms(1) have h: "holds lengthsAgree tk" "holds promotedOnce tk" "holds sumsMatch tk"
    by (simp_all add: promotionsOK_holds)
  have e: "holds (\<lambda>sv css lg. \<exists>new. lg = promotions tk @ new) tk" by (simp add: holds_def)
  from searchDistance_holds [OF stable_lengthsAgree h(1) assms(2)]
    searchDistance_holds [OF stable_promotedOnce h(2) assms(2)]
    searchDistance_holds [OF stable_sumsMatch h(3) assms(2)]
    searchDistance_holds [OF stable_extends e assms(2)]
  show ?thesis by (simp add: promotionsOK_holds sFrame_def) (simp add: holds_def)
qed

lemma wTagged_OK: "promotionsOK wTagged" "promotionsOK wRetagged"
  by (simp_all add: promotionsOK_def wRetagged_def wPromoted_def wTagged_def wFresh_def
        newTracklet_def wSolverH_def newClassStats_def popIn_def popNon_def lookup_def
        less_Suc_eq f64sum_def f64add_def f64sub_def fl64_one)

text \<open>
  Claim C9. In a solve, no promotion of a distance-scope tag into a tracklet-scope tag set
  happens twice. The record of promotions gets an entry (class index, bin, in-class or
  non-class) each time a promotion branch of \<open>searchAngles\<close> runs and adds the bin's
  population to the running sums. When the solve returns, the record has no entry twice,
  each entry is in the tracklet-scope tag set it names, and each of the four running sums of
  a class is the sum of the populations of the bins recorded for it (from the all and the unk
  histogram, in-class and non-class), added in \<open>float64\<close> in the order of the record: a
  bin's population enters a running sum once, however often the search tags the bin at
  distance scope. For a well-formed solver and random
  source the solve returns within the budget \<open>fuelBound\<close>. The same three properties
  (\<open>promotionsOK\<close>) are kept, and the record is only extended, by every run of the promotion
  loop and by every search of a distance, from any workspace that has them.
\<close>

theorem promotion_once:
  "(wfSolver s \<and> wfRnd rn \<and> fuelBound s \<le> fuel
      \<longrightarrow> (\<exists>tk'. score fuel (newTracklet s o2 vm rn) = Some tk'))
   \<and> (\<forall>tk'. score fuel (newTracklet s o2 vm rn) = Some tk' \<longrightarrow>
         distinct (promotions tk')
         \<and> (\<forall>(cx, i, b)\<in>set (promotions tk').
               cx < length (classCompute s)
               \<and> lookup (if b then tagInClass (cs tk' ! cx) else tagNonClass (cs tk' ! cx)) i)
         \<and> (\<forall>k<length (classCompute s).
               sumAllInClass (cs tk' ! k) = f64sum (map (popIn (allM s) s k) (promotions tk'))
               \<and> sumUnkInClass (cs tk' ! k) = f64sum (map (popIn (unkM s) s k) (promotions tk'))
               \<and> sumAllNonClass (cs tk' ! k)
                   = f64sum (map (popNon (allM s) s k) (promotions tk'))
               \<and> sumUnkNonClass (cs tk' ! k)
                   = f64sum (map (popNon (unkM s) s k) (promotions tk'))))
   \<and> (\<forall>tk m nt nt' tk1.
         promotionsOK tk \<and> promoteBins m nt tk = Some (nt', tk1) \<longrightarrow>
           promotionsOK tk1 \<and> solver tk1 = solver tk
           \<and> (\<exists>new. promotions tk1 = promotions tk @ new))
   \<and> (\<forall>tk d r tk1.
         promotionsOK tk \<and> searchDistance fuel d tk = Some (r, tk1) \<longrightarrow>
           promotionsOK tk1 \<and> solver tk1 = solver tk
           \<and> (\<exists>new. promotions tk1 = promotions tk @ new))"
proof -
  have t: "\<exists>tk'. score fuel (newTracklet s o2 vm rn) = Some tk'"
    if "wfSolver s \<and> wfRnd rn \<and> fuelBound s \<le> fuel"
    using that by (blast intro: score_terminates)
  have f: "distinct (promotions tk')
         \<and> (\<forall>(cx, i, b)\<in>set (promotions tk').
               cx < length (classCompute s)
               \<and> lookup (if b then tagInClass (cs tk' ! cx) else tagNonClass (cs tk' ! cx)) i)
         \<and> (\<forall>k<length (classCompute s).
               sumAllInClass (cs tk' ! k) = f64sum (map (popIn (allM s) s k) (promotions tk'))
               \<and> sumUnkInClass (cs tk' ! k) = f64sum (map (popIn (unkM s) s k) (promotions tk'))
               \<and> sumAllNonClass (cs tk' ! k)
                   = f64sum (map (popNon (allM s) s k) (promotions tk'))
               \<and> sumUnkNonClass (cs tk' ! k)
                   = f64sum (map (popNon (unkM s) s k) (promotions tk')))"
    if sc: "score fuel (newTracklet s o2 vm rn) = Some tk'" for tk'
  proof -
    from score_holds [OF stable_promotedOnce newTracklet_holds(3) sc]
    have a: "holds promotedOnce tk'" by simp
    from score_holds [OF stable_sumsMatch newTracklet_sumsMatch sc]
    have b: "holds sumsMatch tk'" by simp
    note res = score_result [OF sc]
    from a res have "distinct (promotions tk')
       \<and> (\<forall>(cx, i, b)\<in>set (promotions tk').
             cx < length (classCompute s)
             \<and> lookup (if b then tagInClass (cs tk' ! cx) else tagNonClass (cs tk' ! cx)) i)"
      by (simp add: holds_def promotedOnce_def)
    moreover from b res have "\<forall>k<length (classCompute s).
             sumAllInClass (cs tk' ! k) = f64sum (map (popIn (allM s) s k) (promotions tk'))
             \<and> sumUnkInClass (cs tk' ! k) = f64sum (map (popIn (unkM s) s k) (promotions tk'))
             \<and> sumAllNonClass (cs tk' ! k) = f64sum (map (popNon (allM s) s k) (promotions tk'))
             \<and> sumUnkNonClass (cs tk' ! k)
                 = f64sum (map (popNon (unkM s) s k) (promotions tk'))"
      by (simp add: holds_def sumsMatch_def)
    ultimately show ?thesis by blast
  qed
  from t f promoteBins_OK searchDistance_OK show ?thesis by blast
qed

theorem promotion_once_witness:
  "wfSolver wSolverH \<and> wfRnd lcgDraw \<and> fuelBound wSolverH \<le> 3060
   \<and> (\<exists>tk'. score 3060 (newTracklet wSolverH wOutcome2 21 lcgDraw) = Some tk'
         \<and> distinct (promotions tk'))
   \<and> promotionsOK wTagged
   \<and> promoteBins (dTag wTagged) False wTagged = Some (True, wPromoted)
   \<and> promotionsOK wPromoted
   \<and> promotions wPromoted = [(0, 3, True), (1, 3, False), (0, 5, False), (1, 5, False)]
   \<and> sumAllInClass (cs wPromoted ! 0) = 3
   \<and> promotionsOK wRetagged
   \<and> promoteBins (dTag wRetagged) False wRetagged = Some (True, wPromoted2)
   \<and> promotionsOK wPromoted2
   \<and> promotions wPromoted2 = promotions wPromoted @ [(0, 7, True), (1, 7, False)]
   \<and> sumAllInClass (cs wPromoted2 ! 0) = 6
   \<and> promoteBins (dTag wPromoted2) False wPromoted2 = Some (False, wPromoted2)"
proof -
  note po = promotion_once [where s = wSolverH and rn = lcgDraw and fuel = 3060
      and ?o2.0 = wOutcome2 and vm = 21]
  from po wSolverH_wf lcgDraw_wf obtain tk' where
    s: "score 3060 (newTracklet wSolverH wOutcome2 21 lcgDraw) = Some tk'" by blast
  with po have d: "distinct (promotions tk')" by blast
  from po wTagged_OK(1) wTagged_promote have k1: "promotionsOK wPromoted" by blast
  from po wTagged_OK(2) wRetagged_promote have k2: "promotionsOK wPromoted2" by blast
  have v: "promotions wPromoted = [(0, 3, True), (1, 3, False), (0, 5, False), (1, 5, False)]"
    "sumAllInClass (cs wPromoted ! 0) = 3"
    "promotions wPromoted2 = promotions wPromoted @ [(0, 7, True), (1, 7, False)]"
    "sumAllInClass (cs wPromoted2 ! 0) = 6"
    by (simp_all add: wPromoted2_def wRetagged_def wPromoted_def)
  from s d k1 k2 v wTagged_OK wTagged_promote wRetagged_promote wPromoted2_again
    wSolverH_wf lcgDraw_wf
  show ?thesis by blast
qed

end
